theory Spec2Isabelle
  imports Main
begin

section \<open>Cluster metadata consumed by the repository\<close>

text \<open>
  The identifiers are UUIDs; only their equality is used by the code below, so they are taken
  as natural numbers. The declarations of the metadata types live in headers that are not part
  of the source file; only the members that \<open>namespace_interface_repository.cc\<close> touches
  are kept.
\<close>

type_synonym namespace_id_t = nat

type_synonym machine_id_t = nat

type_synonym peer_id_t = nat

text \<open>A key range: its left key and its right bound (\<open>None\<close> when unbounded).\<close>

type_synonym key_range_t = "string \<times> string option"

text \<open>A hash region: a hash interval and the key range \<open>inner\<close>.\<close>

record hash_region_t =
  beg :: nat
  hash_end :: nat
  inner :: key_range_t

text \<open>
  The source names one role, \<open>blueprint_role_primary\<close>; every other role is kept opaque.
\<close>

datatype blueprint_role_t = blueprint_role_primary | blueprint_role_other nat

text \<open>
  A \<open>std::map\<close> that the code iterates is an association list in iteration order; its keys
  are distinct (the well-formedness of a \<open>std::map\<close>, stated where a theorem needs it).
\<close>

type_synonym region_to_role_map_t = "(hash_region_t \<times> blueprint_role_t) list"

type_synonym role_map_t = "(machine_id_t \<times> region_to_role_map_t) list"

record persistable_blueprint_t =
  machines_roles :: role_map_t

text \<open>
  Modelled from the spec: \<open>vclock_t\<close> is not part of the source file. The spec gives a
  blueprint the flag \<open>in_conflict\<close> and the value read through \<open>get_ref()\<close>.
\<close>

record 'a vclock_t =
  in_conflict :: bool
  vclock_ref :: 'a

record namespace_semilattice_metadata_t =
  blueprint :: "persistable_blueprint_t vclock_t"

text \<open>
  Modelled from the spec: \<open>deletable_t\<close> is not part of the source file. A table is either
  deleted or carries its metadata, read through \<open>get_ref()\<close>.
\<close>

datatype 'a deletable_t = deleted | live (deletable_ref: 'a)

fun is_deleted :: "'a deletable_t \<Rightarrow> bool" where
  "is_deleted deleted = True"
| "is_deleted (live _) = False"

type_synonym namespace_map_t =
  "(namespace_id_t \<times> namespace_semilattice_metadata_t deletable_t) list"

section \<open>The region-to-primary projection\<close>

type_synonym region_map_t = "key_range_t \<rightharpoonup> machine_id_t"

type_synonym reg_to_pri_maps_t = "namespace_id_t \<rightharpoonup> region_map_t"

text \<open>
  \<open>new_reg_to_pri_maps[n][r] = m\<close>: \<open>operator[]\<close> on the outer map creates an empty inner
  map when the table has no entry yet.
\<close>

definition assign_primary ::
  "namespace_id_t \<Rightarrow> key_range_t \<Rightarrow> machine_id_t \<Rightarrow> reg_to_pri_maps_t \<Rightarrow> reg_to_pri_maps_t" where
  "assign_primary n r m new =
     new(n \<mapsto> (case new n of None \<Rightarrow> Map.empty | Some rm \<Rightarrow> rm)(r \<mapsto> m))"

text \<open>The loop over \<open>it3\<close> (lines 116-120): the regions of one machine.\<close>

fun roles_loop ::
  "namespace_id_t \<Rightarrow> machine_id_t \<Rightarrow> region_to_role_map_t \<Rightarrow> reg_to_pri_maps_t \<Rightarrow> reg_to_pri_maps_t" where
  "roles_loop n m [] new = new"
| "roles_loop n m ((reg, role) # roles) new =
     roles_loop n m roles
       (if role = blueprint_role_primary then assign_primary n (inner reg) m new else new)"

text \<open>The loop over \<open>it2\<close> (lines 113-121): the machines of one blueprint.\<close>

fun machines_loop ::
  "namespace_id_t \<Rightarrow> role_map_t \<Rightarrow> reg_to_pri_maps_t \<Rightarrow> reg_to_pri_maps_t" where
  "machines_loop n [] new = new"
| "machines_loop n ((m, roles) # rest) new = machines_loop n rest (roles_loop n m roles new)"

text \<open>
  The loop over \<open>it\<close> (lines 98-122). \<open>old\<close> is \<open>*region_to_primary_maps.get()\<close>, the
  projection held by the thread that runs the callback.
\<close>

fun namespaces_loop ::
  "reg_to_pri_maps_t \<Rightarrow> namespace_map_t \<Rightarrow> reg_to_pri_maps_t \<Rightarrow> reg_to_pri_maps_t" where
  "namespaces_loop old [] new = new"
| "namespaces_loop old ((n, d) # ns) new =
     namespaces_loop old ns
       (if is_deleted d then new
        else if in_conflict (blueprint (deletable_ref d)) then
          (case old n of Some rm \<Rightarrow> new(n \<mapsto> rm) | None \<Rightarrow> new)
        else machines_loop n (machines_roles (vclock_ref (blueprint (deletable_ref d)))) new)"

text \<open>The projection \<open>new_reg_to_pri_maps\<close> that \<open>on_namespaces_change\<close> builds.\<close>

definition new_reg_to_pri_maps :: "reg_to_pri_maps_t \<Rightarrow> namespace_map_t \<Rightarrow> reg_to_pri_maps_t" where
  "new_reg_to_pri_maps old ns = namespaces_loop old ns Map.empty"

text \<open>
  \<open>region_to_primary_maps\<close> is a \<open>one_per_thread_t\<close>: one projection per thread number.
  \<open>copy_region_maps_to_thread\<close> replaces the projection of one thread.
\<close>

definition copy_region_maps_to_thread ::
  "reg_to_pri_maps_t \<Rightarrow> (nat \<Rightarrow> reg_to_pri_maps_t) \<Rightarrow> nat \<Rightarrow> (nat \<Rightarrow> reg_to_pri_maps_t)" where
  "copy_region_maps_to_thread from to thread = to(thread := from)"

text \<open>
  \<open>on_namespaces_change\<close>, run on thread \<open>cur\<close> with \<open>num_threads\<close> threads: the state of
  \<open>region_to_primary_maps\<close> once every spawned copy has run.
\<close>

definition on_namespaces_change ::
  "nat \<Rightarrow> nat \<Rightarrow> namespace_map_t \<Rightarrow> (nat \<Rightarrow> reg_to_pri_maps_t) \<Rightarrow> (nat \<Rightarrow> reg_to_pri_maps_t)" where
  "on_namespaces_change cur num_threads ns region_to_primary_maps =
     fold (\<lambda>thread to.
             copy_region_maps_to_thread (new_reg_to_pri_maps (region_to_primary_maps cur) ns) to thread)
       [0 ..< num_threads] region_to_primary_maps"

text \<open>What a projection says about a key range of a table.\<close>

definition primary_of :: "reg_to_pri_maps_t \<Rightarrow> namespace_id_t \<Rightarrow> key_range_t \<Rightarrow> machine_id_t option" where
  "primary_of maps n r = (case maps n of None \<Rightarrow> None | Some rm \<Rightarrow> rm r)"

text \<open>
  The machines of a blueprint that hold a primary role over a region whose inner key range is
  \<open>r\<close>, in the order in which the loops visit them.
\<close>

fun primaries_in_roles :: "key_range_t \<Rightarrow> machine_id_t \<Rightarrow> region_to_role_map_t \<Rightarrow> machine_id_t list" where
  "primaries_in_roles r m [] = []"
| "primaries_in_roles r m ((reg, role) # roles) =
     (if role = blueprint_role_primary \<and> inner reg = r then [m] else []) @ primaries_in_roles r m roles"

fun primaries_for :: "key_range_t \<Rightarrow> role_map_t \<Rightarrow> machine_id_t list" where
  "primaries_for r [] = []"
| "primaries_for r ((m, roles) # rest) = primaries_in_roles r m roles @ primaries_for r rest"

text \<open>The claim's reading: the blueprint has an entry (machine, region, primary), inner = r.\<close>

definition has_primary_entry :: "role_map_t \<Rightarrow> machine_id_t \<Rightarrow> key_range_t \<Rightarrow> bool" where
  "has_primary_entry bp m r \<longleftrightarrow>
     (\<exists>roles reg. (m, roles) \<in> set bp \<and> (reg, blueprint_role_primary) \<in> set roles \<and> inner reg = r)"

text \<open>The role map that lines 111-113 read for a table that is not deleted.\<close>

definition table_blueprint :: "namespace_semilattice_metadata_t deletable_t \<Rightarrow> role_map_t" where
  "table_blueprint d = machines_roles (vclock_ref (blueprint (deletable_ref d)))"

text \<open>A snapshot with the contents of every conflicted blueprint replaced by \<open>bp0\<close>.\<close>

fun forget_conflicted ::
  "persistable_blueprint_t \<Rightarrow> namespace_id_t \<times> namespace_semilattice_metadata_t deletable_t
     \<Rightarrow> namespace_id_t \<times> namespace_semilattice_metadata_t deletable_t" where
  "forget_conflicted bp0 (n, deleted) = (n, deleted)"
| "forget_conflicted bp0 (n, live md) =
     (if in_conflict (blueprint md)
      then (n, live (md\<lparr>blueprint := (blueprint md)\<lparr>vclock_ref := bp0\<rparr>\<rparr>))
      else (n, live md))"

section \<open>The reactor business cards of one table\<close>

text \<open>
  \<open>jt->second.internal\<close>: the directory wraps each card; only \<open>internal\<close> is read.
\<close>

record 'c bcard_wrapper_t =
  internal :: 'c

record 'c namespaces_directory_metadata_t =
  reactor_bcards :: "namespace_id_t \<rightharpoonup> 'c bcard_wrapper_t"

text \<open>
  \<open>get_reactor_business_cards\<close> (lines 66-82). The card type is not declared in the source
  file, so the default-constructed card \<open>cow_ptr_t<reactor_business_card_t>()\<close> is the
  parameter \<open>default_card\<close>.
\<close>

fun get_reactor_business_cards_loop ::
  "'c \<Rightarrow> (peer_id_t \<times> 'c namespaces_directory_metadata_t) list \<Rightarrow> namespace_id_t
     \<Rightarrow> (peer_id_t \<rightharpoonup> 'c) \<Rightarrow> (peer_id_t \<rightharpoonup> 'c)" where
  "get_reactor_business_cards_loop default_card [] n_id res = res"
| "get_reactor_business_cards_loop default_card ((peer, md) # rest) n_id res =
     get_reactor_business_cards_loop default_card rest n_id
       (case reactor_bcards md n_id of
          Some jt \<Rightarrow> res(peer \<mapsto> internal jt)
        | None \<Rightarrow> res(peer \<mapsto> default_card))"

definition get_reactor_business_cards ::
  "'c \<Rightarrow> (peer_id_t \<times> 'c namespaces_directory_metadata_t) list \<Rightarrow> namespace_id_t
     \<Rightarrow> (peer_id_t \<rightharpoonup> 'c)" where
  "get_reactor_business_cards default_card ns_directory_metadata n_id =
     get_reactor_business_cards_loop default_card ns_directory_metadata n_id Map.empty"

section \<open>Cache entries\<close>

text \<open>
  A \<open>cond_t\<close> is a one-shot signal. The only ones in the file are the locals
  \<open>ref_count_is_zero\<close> and \<open>ref_count_is_nonzero\<close> on the stack of a lifecycle coroutine;
  the address of such a local names the coroutine (by its number) that holds it. The store maps
  an address to \<open>is_pulsed()\<close>.
\<close>

datatype cond_addr = ref_count_is_zero nat | ref_count_is_nonzero nat

type_synonym cond_store = "cond_addr \<Rightarrow> bool"

definition pulse_if_not_already_pulsed :: "cond_addr \<Rightarrow> cond_store \<Rightarrow> cond_store" where
  "pulse_if_not_already_pulsed c conds = (if conds c then conds else conds(c := True))"

text \<open>
  \<open>namespace_cache_entry_t\<close> (lines 22-49). The promise \<open>namespace_interface\<close> is
  \<open>None\<close> until it is pulsed and then holds the pointer it was pulsed with; a pointer to a
  \<open>cond_t\<close> is \<open>None\<close> when \<open>NULL\<close>. \<open>ref_count\<close> is a C++ \<open>int\<close>, of 32 bits on
  the platforms the program is built for. The count is an integer here, and it is the value of
  the field as long as it lies between \<open>INT_MIN\<close> and \<open>INT_MAX\<close>; incrementing
  \<open>INT_MAX\<close> or decrementing \<open>INT_MIN\<close> overflows the \<open>int\<close>, which is undefined
  behaviour in C++ and is not described by \<open>add_ref\<close> and \<open>release\<close> below. A cache
  reaches such a count only with 2^31 live handles of one table.
\<close>

record namespace_cache_entry_t =
  namespace_interface :: "nat option"
  ref_count :: int
  pulse_when_ref_count_becomes_zero :: "cond_addr option"
  pulse_when_ref_count_becomes_nonzero :: "cond_addr option"

definition INT_MAX :: int where
  "INT_MAX = 2 ^ 31 - 1"

definition INT_MIN :: int where
  "INT_MIN = - (2 ^ 31)"

definition add_ref ::
  "namespace_cache_entry_t \<Rightarrow> cond_store \<Rightarrow> namespace_cache_entry_t \<times> cond_store" where
  "add_ref e conds =
     (let e' = e\<lparr>ref_count := ref_count e + 1\<rparr> in
      if ref_count e' = 1 then
        (case pulse_when_ref_count_becomes_nonzero e' of
           Some c \<Rightarrow> (e', pulse_if_not_already_pulsed c conds)
         | None \<Rightarrow> (e', conds))
      else (e', conds))"

definition release ::
  "namespace_cache_entry_t \<Rightarrow> cond_store \<Rightarrow> namespace_cache_entry_t \<times> cond_store" where
  "release e conds =
     (let e' = e\<lparr>ref_count := ref_count e - 1\<rparr> in
      if ref_count e' = 0 then
        (case pulse_when_ref_count_becomes_zero e' of
           Some c \<Rightarrow> (e', pulse_if_not_already_pulsed c conds)
         | None \<Rightarrow> (e', conds))
      else (e', conds))"

section \<open>The cache of one thread and its coroutines\<close>

definition NAMESPACE_INTERFACE_EXPIRATION_MS :: nat where
  "NAMESPACE_INTERFACE_EXPIRATION_MS = 60 * 1000"

text \<open>
  Coroutines are cooperative: one runs until it waits, then another runs. A lifecycle coroutine
  (\<open>create_and_destroy_namespace_interface\<close>) is therefore at one of these places:
  spawned and not yet started; inside the constructor of \<open>switch_to_home_thread\<close> (line 147);
  inside the constructor of \<open>switch_back\<close> (line 151); in the wait of line 162; in the wait
  of line 175; in the wait of line 184; or past the erase of line 201, where the locals of
  lines 147-158 are destroyed (the comment of lines 144-146: the destructors switch threads
  again) before the coroutine ends.
\<close>

datatype pc_t =
    Spawned | To_home_thread | To_own_thread
  | Wait_initial_ready | Wait_ref_count_zero | Wait_expiration | Unwinding

text \<open>
  The frame of a lifecycle coroutine: the table, the place, whether the initial-ready signal of
  its \<open>namespace_interface\<close> is pulsed, and its \<open>expiration_timer\<close> once started (the
  duration given to \<open>start\<close>, and whether the timer has fired).
\<close>

record coroutine_t =
  namespace_id :: namespace_id_t
  pc :: pc_t
  initial_ready :: bool
  expiration_timer :: "(nat \<times> bool) option"

text \<open>
  What aborts the process: undefined behaviour at line 141 (the entry is not in the map) or
  through a dangling \<open>cache_entry\<close>, the guarantees of lines 142, 186 and 197, a second pulse
  of the promise at line 166, and the use of a handle whose entry is gone.
\<close>

datatype failure =
    Entry_not_found
  | Dangling_cache_entry
  | Guarantee_slot_not_pulsed
  | Duplicate_pulse
  | Guarantee_ref_count_zero_at_expiry
  | Guarantee_ref_count_zero_when_interrupted
  | Dangling_handle

text \<open>
  The part of the repository that one worker thread sees: \<open>cache->entries\<close>, the drain signal
  of \<open>cache->drainer\<close>, the lifecycle coroutines (numbered as they are spawned), the
  \<open>cond_t\<close> locals, the number of live access handles of each table, and the failure that
  aborted the process, if any.
\<close>

record repo_t =
  entries :: "namespace_id_t \<rightharpoonup> namespace_cache_entry_t"
  drain_signal :: bool
  coros :: "nat \<rightharpoonup> coroutine_t"
  next_coro :: nat
  conds :: cond_store
  handles :: "namespace_id_t \<Rightarrow> nat"
  failed :: "failure option"

definition init_repo :: repo_t where
  "init_repo = \<lparr>entries = Map.empty, drain_signal = False, coros = Map.empty, next_coro = 0,
                conds = (\<lambda>_. False), handles = (\<lambda>_. 0), failed = None\<rparr>"

definition fail :: "failure \<Rightarrow> repo_t \<Rightarrow> repo_t" where
  "fail f s = s\<lparr>failed := Some f\<rparr>"

text \<open>
  Modelled from the spec: \<open>wait_interruptible\<close> is not part of the source file. A blocking
  await is a pair of a subject and a cancel signal; the waiter resumes once either is pulsed, and
  the wait throws \<open>interrupted_exc_t\<close> when the cancel signal is pulsed by then.
\<close>

datatype wait_result = Blocked | Interrupted | Completed

definition wait_interruptible :: "bool \<Rightarrow> bool \<Rightarrow> wait_result" where
  "wait_interruptible signal_pulsed interruptor_pulsed =
     (if interruptor_pulsed then Interrupted else if signal_pulsed then Completed else Blocked)"

subsection \<open>\<open>get_namespace_interface\<close>\<close>

text \<open>
  \<open>get_namespace_interface\<close>, lines 213-235, which run without waiting: find the entry or
  create it and spawn its lifecycle coroutine. \<open>cache_entry\<close> is afterwards the entry of
  \<open>ns_id\<close>. \<open>temporary_holder\<close> is default-constructed and never assigned, so it
  holds no reference to the entry.
\<close>

definition get_namespace_interface_begin :: "namespace_id_t \<Rightarrow> repo_t \<Rightarrow> repo_t" where
  "get_namespace_interface_begin ns_id s =
     (case entries s ns_id of
        None \<Rightarrow>
          s\<lparr>entries := (entries s)(ns_id \<mapsto>
                \<lparr>namespace_interface = None, ref_count = 0,
                 pulse_when_ref_count_becomes_zero = None,
                 pulse_when_ref_count_becomes_nonzero = None\<rparr>),
            coros := (coros s)(next_coro s \<mapsto>
                \<lparr>namespace_id = ns_id, pc = Spawned, initial_ready = False,
                 expiration_timer = None\<rparr>),
            next_coro := next_coro s + 1\<rparr>
      | Some _ \<Rightarrow> s)"

text \<open>
  \<open>get_namespace_interface\<close>, lines 236-240, run when the caller is resumed in state
  \<open>s\<close>. Modelled from the spec: the
  constructor of the access handle calls \<open>add_ref\<close> (the handle class is not part of the source
  file). If the entry was erased while the caller waited, \<open>cache_entry\<close> dangles.
\<close>

datatype get_outcome = Get_blocked | Get_interrupted | Get_handle nat | Get_dangling

definition get_namespace_interface_resume ::
  "namespace_id_t \<Rightarrow> bool \<Rightarrow> repo_t \<Rightarrow> get_outcome \<times> repo_t" where
  "get_namespace_interface_resume ns_id interruptor s =
     (case entries s ns_id of
        None \<Rightarrow> (Get_dangling, s)
      | Some e \<Rightarrow>
          (case wait_interruptible (namespace_interface e \<noteq> None) interruptor of
             Blocked \<Rightarrow> (Get_blocked, s)
           | Interrupted \<Rightarrow> (Get_interrupted, s)
           | Completed \<Rightarrow>
               (let (e', conds') = add_ref e (conds s) in
                (Get_handle (the (namespace_interface e)),
                 s\<lparr>entries := (entries s)(ns_id \<mapsto> e'), conds := conds'\<rparr>))))"

subsection \<open>\<open>create_and_destroy_namespace_interface\<close>\<close>

text \<open>Line 201 and the start of the unwinding; the timer, if any, is destroyed.\<close>

definition erase_entry :: "nat \<Rightarrow> coroutine_t \<Rightarrow> repo_t \<Rightarrow> repo_t" where
  "erase_entry k c s =
     s\<lparr>entries := (entries s)(namespace_id c := None),
       coros := (coros s)(k \<mapsto> c\<lparr>pc := Unwinding, expiration_timer := None\<rparr>)\<rparr>"

text \<open>The catch block of lines 193-198, then line 201.\<close>

definition on_interrupted :: "nat \<Rightarrow> coroutine_t \<Rightarrow> namespace_cache_entry_t \<Rightarrow> repo_t \<Rightarrow> repo_t" where
  "on_interrupted k c e s =
     (if ref_count e \<noteq> 0 then fail Guarantee_ref_count_zero_when_interrupted s
      else erase_entry k c s)"

text \<open>
  The loop of line 169 from its top to the next wait, for the entry \<open>e\<close> as it is now: with a
  non-zero count the coroutine installs a fresh \<open>ref_count_is_zero\<close> and waits at line 175;
  otherwise it starts the timer, installs a fresh \<open>ref_count_is_nonzero\<close> and waits at
  line 184.
\<close>

definition keep_alive_loop :: "nat \<Rightarrow> coroutine_t \<Rightarrow> namespace_cache_entry_t \<Rightarrow> repo_t \<Rightarrow> repo_t" where
  "keep_alive_loop k c e s =
     (if ref_count e \<noteq> 0 then
        s\<lparr>conds := (conds s)(ref_count_is_zero k := False),
          entries := (entries s)(namespace_id c \<mapsto>
             e\<lparr>pulse_when_ref_count_becomes_zero := Some (ref_count_is_zero k)\<rparr>),
          coros := (coros s)(k \<mapsto> c\<lparr>pc := Wait_ref_count_zero\<rparr>)\<rparr>
      else
        s\<lparr>conds := (conds s)(ref_count_is_nonzero k := False),
          entries := (entries s)(namespace_id c \<mapsto>
             e\<lparr>pulse_when_ref_count_becomes_nonzero := Some (ref_count_is_nonzero k)\<rparr>),
          coros := (coros s)(k \<mapsto>
             c\<lparr>pc := Wait_expiration,
               expiration_timer := Some (NAMESPACE_INTERFACE_EXPIRATION_MS, False)\<rparr>)\<rparr>)"

text \<open>Lines 138-147: up to the first thread switch.\<close>

definition resume_spawned :: "nat \<Rightarrow> coroutine_t \<Rightarrow> repo_t \<Rightarrow> repo_t option" where
  "resume_spawned k c s =
     (case entries s (namespace_id c) of
        None \<Rightarrow> Some (fail Entry_not_found s)
      | Some e \<Rightarrow>
          if namespace_interface e \<noteq> None then Some (fail Guarantee_slot_not_pulsed s)
          else Some (s\<lparr>coros := (coros s)(k \<mapsto> c\<lparr>pc := To_home_thread\<rparr>)\<rparr>))"

text \<open>
  Resumed from the wait of line 162: interrupted, or ready; then line 166 pulses the promise
  (with the address of the local \<open>namespace_interface\<close>, named by the coroutine's number) and
  the loop starts.
\<close>

definition resume_wait_initial_ready :: "nat \<Rightarrow> coroutine_t \<Rightarrow> repo_t \<Rightarrow> repo_t option" where
  "resume_wait_initial_ready k c s =
     (case entries s (namespace_id c) of
        None \<Rightarrow> Some (fail Dangling_cache_entry s)
      | Some e \<Rightarrow>
          (case wait_interruptible (initial_ready c) (drain_signal s) of
             Blocked \<Rightarrow> None
           | Interrupted \<Rightarrow> Some (on_interrupted k c e s)
           | Completed \<Rightarrow>
               if namespace_interface e \<noteq> None then Some (fail Duplicate_pulse s)
               else Some (keep_alive_loop k c (e\<lparr>namespace_interface := Some k\<rparr>) s)))"

text \<open>
  Resumed from the wait of line 175. Modelled from the spec: \<open>assignment_sentry_t\<close> is not
  part of the source file; leaving its scope clears the trigger.
\<close>

definition resume_wait_ref_count_zero :: "nat \<Rightarrow> coroutine_t \<Rightarrow> repo_t \<Rightarrow> repo_t option" where
  "resume_wait_ref_count_zero k c s =
     (case entries s (namespace_id c) of
        None \<Rightarrow> Some (fail Dangling_cache_entry s)
      | Some e \<Rightarrow>
          (case wait_interruptible (conds s (ref_count_is_zero k)) (drain_signal s) of
             Blocked \<Rightarrow> None
           | Interrupted \<Rightarrow>
               Some (on_interrupted k c (e\<lparr>pulse_when_ref_count_becomes_zero := None\<rparr>) s)
           | Completed \<Rightarrow>
               Some (keep_alive_loop k c (e\<lparr>pulse_when_ref_count_becomes_zero := None\<rparr>) s)))"

text \<open>
  Resumed from the wait of line 184 on \<open>wait_any_t waiter(&expiration_timer,
  &ref_count_is_nonzero)\<close>: interrupted; or lines 185-190, the guarantee and the break when
  \<open>ref_count_is_nonzero\<close> is not pulsed; or the next round of the loop.
\<close>

definition resume_wait_expiration :: "nat \<Rightarrow> coroutine_t \<Rightarrow> repo_t \<Rightarrow> repo_t option" where
  "resume_wait_expiration k c s =
     (case entries s (namespace_id c) of
        None \<Rightarrow> Some (fail Dangling_cache_entry s)
      | Some e \<Rightarrow>
          (case wait_interruptible
                  ((case expiration_timer c of Some (ms, fired) \<Rightarrow> fired | None \<Rightarrow> False)
                    \<or> conds s (ref_count_is_nonzero k))
                  (drain_signal s) of
             Blocked \<Rightarrow> None
           | Interrupted \<Rightarrow>
               Some (on_interrupted k c (e\<lparr>pulse_when_ref_count_becomes_nonzero := None\<rparr>) s)
           | Completed \<Rightarrow>
               if \<not> conds s (ref_count_is_nonzero k) then
                 (if ref_count e \<noteq> 0 then Some (fail Guarantee_ref_count_zero_at_expiry s)
                  else Some (erase_entry k c s))
               else
                 Some (keep_alive_loop k (c\<lparr>expiration_timer := None\<rparr>)
                         (e\<lparr>pulse_when_ref_count_becomes_nonzero := None\<rparr>) s)))"

text \<open>
  One run of lifecycle coroutine \<open>k\<close>, from the place where it is to its next wait;
  \<open>None\<close> when there is no such coroutine or it is still blocked.
\<close>

definition create_and_destroy_namespace_interface :: "nat \<Rightarrow> repo_t \<Rightarrow> repo_t option" where
  "create_and_destroy_namespace_interface k s =
     (case coros s k of
        None \<Rightarrow> None
      | Some c \<Rightarrow>
          (case pc c of
             Spawned \<Rightarrow> resume_spawned k c s
           | To_home_thread \<Rightarrow> Some (s\<lparr>coros := (coros s)(k \<mapsto> c\<lparr>pc := To_own_thread\<rparr>)\<rparr>)
           | To_own_thread \<Rightarrow> Some (s\<lparr>coros := (coros s)(k \<mapsto> c\<lparr>pc := Wait_initial_ready\<rparr>)\<rparr>)
           | Wait_initial_ready \<Rightarrow> resume_wait_initial_ready k c s
           | Wait_ref_count_zero \<Rightarrow> resume_wait_ref_count_zero k c s
           | Wait_expiration \<Rightarrow> resume_wait_expiration k c s
           | Unwinding \<Rightarrow> Some (s\<lparr>coros := (coros s)(k := None)\<rparr>)))"

subsection \<open>Everything that can happen on the thread\<close>

text \<open>
  A caller runs lines 215-235 of \<open>get_namespace_interface\<close>; a caller is resumed at line 236
  with the promise pulsed and gets its handle; a handle is copied; a handle is destroyed; the
  interface of a coroutine becomes ready; an expiration timer fires; the drainer of the cache is
  drained; a lifecycle coroutine runs to its next wait. Time is not modelled: a started timer
  may fire at any moment. A caller that is interrupted in its wait changes nothing and is no
  event. Every worker thread has such a cache of its own, and the caches share nothing.
\<close>

datatype event =
    Get_called namespace_id_t
  | Get_returned namespace_id_t
  | Handle_copied namespace_id_t
  | Handle_destroyed namespace_id_t
  | Initial_ready nat
  | Timer_fired nat
  | Drain
  | Resume nat

text \<open>
  Modelled from the spec: copying an access handle calls \<open>add_ref\<close> and destroying one calls
  \<open>release\<close>, on the entry the handle was made for.
\<close>

definition handle_copied :: "namespace_id_t \<Rightarrow> repo_t \<Rightarrow> repo_t option" where
  "handle_copied n s =
     (if handles s n = 0 then None
      else (case entries s n of
              None \<Rightarrow> Some (fail Dangling_handle s)
            | Some e \<Rightarrow>
                (let (e', conds') = add_ref e (conds s) in
                 Some (s\<lparr>entries := (entries s)(n \<mapsto> e'), conds := conds',
                         handles := (handles s)(n := handles s n + 1)\<rparr>))))"

definition handle_destroyed :: "namespace_id_t \<Rightarrow> repo_t \<Rightarrow> repo_t option" where
  "handle_destroyed n s =
     (if handles s n = 0 then None
      else (case entries s n of
              None \<Rightarrow> Some (fail Dangling_handle s)
            | Some e \<Rightarrow>
                (let (e', conds') = release e (conds s) in
                 Some (s\<lparr>entries := (entries s)(n \<mapsto> e'), conds := conds',
                         handles := (handles s)(n := handles s n - 1)\<rparr>))))"

definition get_returned :: "namespace_id_t \<Rightarrow> repo_t \<Rightarrow> repo_t option" where
  "get_returned n s =
     (case get_namespace_interface_resume n False s of
        (Get_handle p, s') \<Rightarrow> Some (s'\<lparr>handles := (handles s')(n := handles s' n + 1)\<rparr>)
      | _ \<Rightarrow> None)"

definition initial_ready_pulsed :: "nat \<Rightarrow> repo_t \<Rightarrow> repo_t option" where
  "initial_ready_pulsed k s =
     (case coros s k of
        None \<Rightarrow> None
      | Some c \<Rightarrow>
          if pc c = Wait_initial_ready
          then Some (s\<lparr>coros := (coros s)(k \<mapsto> c\<lparr>initial_ready := True\<rparr>)\<rparr>)
          else None)"

definition timer_fired :: "nat \<Rightarrow> repo_t \<Rightarrow> repo_t option" where
  "timer_fired k s =
     (case coros s k of
        None \<Rightarrow> None
      | Some c \<Rightarrow>
          (case expiration_timer c of
             None \<Rightarrow> None
           | Some (ms, fired) \<Rightarrow>
               Some (s\<lparr>coros := (coros s)(k \<mapsto> c\<lparr>expiration_timer := Some (ms, True)\<rparr>)\<rparr>)))"

text \<open>An event applied to a state; \<open>None\<close> when it cannot happen there.\<close>

definition fire :: "event \<Rightarrow> repo_t \<Rightarrow> repo_t option" where
  "fire ev s =
     (if failed s \<noteq> None then None
      else (case ev of
              Get_called n \<Rightarrow> Some (get_namespace_interface_begin n s)
            | Get_returned n \<Rightarrow> get_returned n s
            | Handle_copied n \<Rightarrow> handle_copied n s
            | Handle_destroyed n \<Rightarrow> handle_destroyed n s
            | Initial_ready k \<Rightarrow> initial_ready_pulsed k s
            | Timer_fired k \<Rightarrow> timer_fired k s
            | Drain \<Rightarrow> Some (s\<lparr>drain_signal := True\<rparr>)
            | Resume k \<Rightarrow> create_and_destroy_namespace_interface k s))"

fun run :: "event list \<Rightarrow> repo_t \<Rightarrow> repo_t option" where
  "run [] s = Some s"
| "run (ev # evs) s = (case fire ev s of None \<Rightarrow> None | Some s' \<Rightarrow> run evs s')"

inductive reachable :: "repo_t \<Rightarrow> bool" where
  reachable_init: "reachable init_repo"
| reachable_fire: "reachable s \<Longrightarrow> fire ev s = Some s' \<Longrightarrow> reachable s'"

subsection \<open>What the repository asks of its callers\<close>

text \<open>
  The comment of lines 194-196: when the destructor of \<open>namespace_repo_t\<close> is called, which
  is what drains the cache, there must not exist any access handle. So the cache is drained only
  when no handle is live, and no call of \<open>get_namespace_interface\<close> returns a handle once the
  cache is drained. Every other event is free.
\<close>

definition caller_obligation :: "event \<Rightarrow> repo_t \<Rightarrow> bool" where
  "caller_obligation ev s =
     (case ev of
        Drain \<Rightarrow> (\<forall>n. handles s n = 0)
      | Get_returned n \<Rightarrow> \<not> drain_signal s
      | _ \<Rightarrow> True)"

fun run_obliged :: "event list \<Rightarrow> repo_t \<Rightarrow> repo_t option" where
  "run_obliged [] s = Some s"
| "run_obliged (ev # evs) s =
     (if caller_obligation ev s
      then (case fire ev s of None \<Rightarrow> None | Some s' \<Rightarrow> run_obliged evs s')
      else None)"

inductive reachable_obliged :: "repo_t \<Rightarrow> bool" where
  reachable_obliged_init: "reachable_obliged init_repo"
| reachable_obliged_fire:
    "reachable_obliged s \<Longrightarrow> caller_obligation ev s \<Longrightarrow> fire ev s = Some s' \<Longrightarrow>
     reachable_obliged s'"

section \<open>Invariants of the cache of one thread\<close>

text \<open>
  The table that coroutine \<open>k\<close> serves, while it has not yet erased its entry.
\<close>

definition active_ns :: "repo_t \<Rightarrow> nat \<Rightarrow> namespace_id_t option" where
  "active_ns s k =
     (case coros s k of
        None \<Rightarrow> None
      | Some c \<Rightarrow> if pc c = Unwinding then None else Some (namespace_id c))"

text \<open>
  Coroutines and entries: coroutine numbers are below the next number to give out; a table has
  an entry exactly when a coroutine that has not yet erased its entry serves it; and no two such
  coroutines serve the same table.
\<close>

definition inv_coros :: "repo_t \<Rightarrow> bool" where
  "inv_coros s \<longleftrightarrow>
     (\<forall>k \<in> dom (coros s). k < next_coro s) \<and>
     (\<forall>n. n \<in> dom (entries s) \<longleftrightarrow> (\<exists>k. active_ns s k = Some n)) \<and>
     (\<forall>k k' n. active_ns s k = Some n \<longrightarrow> active_ns s k' = Some n \<longrightarrow> k = k')"

text \<open>The places before line 166, where the promise is pulsed.\<close>

definition early :: "pc_t \<Rightarrow> bool" where
  "early p \<longleftrightarrow> p = Spawned \<or> p = To_home_thread \<or> p = To_own_thread \<or> p = Wait_initial_ready"

text \<open>Until its coroutine has passed line 166, the promise of an entry is not pulsed.\<close>

definition inv_slot :: "repo_t \<Rightarrow> bool" where
  "inv_slot s \<longleftrightarrow>
     (\<forall>k c e. coros s k = Some c \<longrightarrow> early (pc c) \<longrightarrow> entries s (namespace_id c) = Some e \<longrightarrow>
        namespace_interface e = None)"

text \<open>
  The count of an entry is the number of live handles of its table; a table without an entry has
  no handle; and while a coroutine waits at line 184 with \<open>ref_count_is_nonzero\<close> not
  pulsed, the count of its entry is 0 and the trigger installed in the entry is that signal.
\<close>

definition inv_refs :: "repo_t \<Rightarrow> bool" where
  "inv_refs s \<longleftrightarrow>
     (\<forall>n e. entries s n = Some e \<longrightarrow> ref_count e = int (handles s n)) \<and>
     (\<forall>n. entries s n = None \<longrightarrow> handles s n = 0) \<and>
     (\<forall>k c. coros s k = Some c \<longrightarrow> pc c = Wait_expiration \<longrightarrow>
        \<not> conds s (ref_count_is_nonzero k) \<longrightarrow>
        (\<exists>e. entries s (namespace_id c) = Some e \<and> ref_count e = 0 \<and>
             pulse_when_ref_count_becomes_nonzero e = Some (ref_count_is_nonzero k)))"

text \<open>The only failure that can happen is the guarantee of line 197.\<close>

definition inv_failed :: "repo_t \<Rightarrow> bool" where
  "inv_failed s \<longleftrightarrow> failed s = None \<or> failed s = Some Guarantee_ref_count_zero_when_interrupted"

definition inv :: "repo_t \<Rightarrow> bool" where
  "inv s \<longleftrightarrow> inv_coros s \<and> inv_slot s \<and> inv_refs s \<and> inv_failed s"

text \<open>
  A coroutine has a started timer exactly while it waits at line 184, and the timer was started
  with \<open>NAMESPACE_INTERFACE_EXPIRATION_MS\<close>.
\<close>

definition timer_ok :: "coroutine_t \<Rightarrow> bool" where
  "timer_ok c \<longleftrightarrow>
     (case expiration_timer c of
        None \<Rightarrow> pc c \<noteq> Wait_expiration
      | Some (ms, fired) \<Rightarrow> pc c = Wait_expiration \<and> ms = NAMESPACE_INTERFACE_EXPIRATION_MS)"

definition inv_timer :: "repo_t \<Rightarrow> bool" where
  "inv_timer s \<longleftrightarrow> (\<forall>k c. coros s k = Some c \<longrightarrow> timer_ok c)"

section \<open>Sample inputs\<close>

definition example_range :: key_range_t where
  "example_range = (''a'', Some ''m'')"

definition example_conflicted :: namespace_map_t where
  "example_conflicted =
     [(1, live \<lparr>blueprint = \<lparr>in_conflict = True, vclock_ref = \<lparr>machines_roles =
            [(9, [(\<lparr>beg = 0, hash_end = 16, inner = example_range\<rparr>, blueprint_role_primary)])]\<rparr>\<rparr>\<rparr>),
      (2, deleted)]"

definition example_prior :: "nat \<Rightarrow> reg_to_pri_maps_t" where
  "example_prior thread = [1 \<mapsto> [example_range \<mapsto> 4]]"

definition example_split_blueprint :: role_map_t where
  "example_split_blueprint =
     [(1, [(\<lparr>beg = 0, hash_end = 8, inner = example_range\<rparr>, blueprint_role_primary)]),
      (2, [(\<lparr>beg = 8, hash_end = 16, inner = example_range\<rparr>, blueprint_role_primary)])]"

definition example_split :: namespace_map_t where
  "example_split =
     [(5, live \<lparr>blueprint = \<lparr>in_conflict = False,
                              vclock_ref = \<lparr>machines_roles = example_split_blueprint\<rparr>\<rparr>\<rparr>),
      (6, deleted)]"

definition example_directory :: "(peer_id_t \<times> string namespaces_directory_metadata_t) list" where
  "example_directory =
     [(1, \<lparr>reactor_bcards = [7 \<mapsto> \<lparr>internal = ''card''\<rparr>]\<rparr>),
      (2, \<lparr>reactor_bcards = Map.empty\<rparr>)]"

definition example_entry :: namespace_cache_entry_t where
  "example_entry =
     \<lparr>namespace_interface = Some 0, ref_count = 0,
      pulse_when_ref_count_becomes_zero = Some (ref_count_is_zero 0),
      pulse_when_ref_count_becomes_nonzero = Some (ref_count_is_nonzero 0)\<rparr>"

text \<open>
  A table is asked for, its interface becomes ready, the caller gets its handle and drops it,
  the timer fires and the coroutine erases the entry; then the table is asked for again.
\<close>

definition example_expiry_then_get :: "event list" where
  "example_expiry_then_get =
     [Get_called 1, Resume 0, Resume 0, Resume 0, Initial_ready 0, Resume 0,
      Get_returned 1, Handle_destroyed 1, Resume 0, Timer_fired 0, Resume 0, Get_called 1]"

text \<open>
  A table is asked for, its interface becomes ready and the caller gets its handle; the cache
  is drained while the handle is live.
\<close>

definition example_drain_with_handle :: "event list" where
  "example_drain_with_handle =
     [Get_called 1, Resume 0, Resume 0, Resume 0, Initial_ready 0, Resume 0,
      Get_returned 1, Resume 0, Drain, Resume 0]"

text \<open>
  The same, but the caller drops its handle before the cache is drained, as the repository asks.
\<close>

definition example_drain_after_release :: "event list" where
  "example_drain_after_release =
     [Get_called 1, Resume 0, Resume 0, Resume 0, Initial_ready 0, Resume 0,
      Get_returned 1, Resume 0, Handle_destroyed 1, Drain]"

definition example_idle :: "event list" where
  "example_idle =
     [Get_called 1, Resume 0, Resume 0, Resume 0, Initial_ready 0, Resume 0, Timer_fired 0]"

definition example_ready :: "event list" where
  "example_ready = [Get_called 1, Resume 0, Resume 0, Resume 0, Initial_ready 0]"

definition example_waiting :: "event list" where
  "example_waiting =
     [Get_called 1, Resume 0, Resume 0, Resume 0, Initial_ready 0, Resume 0]"

section \<open>The projection and the business cards: proofs\<close>

lemma fold_copy:
  "fold (\<lambda>thread to. copy_region_maps_to_thread v to thread) [0 ..< k] f
     = (\<lambda>t. if t < k then v else f t)"
  by (induction k) (auto simp: copy_region_maps_to_thread_def fun_eq_iff)

lemma on_namespaces_change_thread:
  "thread < num_threads \<Longrightarrow>
     on_namespaces_change cur num_threads ns maps thread = new_reg_to_pri_maps (maps cur) ns"
  by (simp add: on_namespaces_change_def fold_copy)

lemma on_namespaces_change_other_thread:
  "\<not> thread < num_threads \<Longrightarrow>
     on_namespaces_change cur num_threads ns maps thread = maps thread"
  by (simp add: on_namespaces_change_def fold_copy)

lemma roles_loop_other: "n' \<noteq> n \<Longrightarrow> roles_loop n m roles new n' = new n'"
  by (induction roles arbitrary: new) (auto simp: assign_primary_def)

lemma machines_loop_other: "n' \<noteq> n \<Longrightarrow> machines_loop n bp new n' = new n'"
  by (induction bp arbitrary: new) (auto simp: roles_loop_other)

lemma primary_of_assign:
  "primary_of (assign_primary n r m new) n r' = (if r' = r then Some m else primary_of new n r')"
  by (auto simp: primary_of_def assign_primary_def split: option.splits)

lemma primary_of_roles_loop:
  "primary_of (roles_loop n m roles new) n r =
     (if primaries_in_roles r m roles = [] then primary_of new n r
      else Some (last (primaries_in_roles r m roles)))"
  by (induction roles arbitrary: new) (auto simp: primary_of_assign)

lemma primary_of_machines_loop:
  "primary_of (machines_loop n bp new) n r =
     (if primaries_for r bp = [] then primary_of new n r
      else Some (last (primaries_for r bp)))"
  by (induction bp arbitrary: new) (auto simp: primary_of_roles_loop)

lemma namespaces_loop_absent:
  "n \<notin> fst ` set ns \<Longrightarrow> namespaces_loop old ns new n = new n"
  by (induction ns arbitrary: new) (auto simp: machines_loop_other split: option.splits)

lemma namespaces_loop_deleted:
  "(n, d) \<in> set ns \<Longrightarrow> distinct (map fst ns) \<Longrightarrow> is_deleted d \<Longrightarrow> new n = None \<Longrightarrow>
     namespaces_loop old ns new n = None"
proof (induction ns arbitrary: new)
  case Nil
  then show ?case by simp
next
  case (Cons a ns)
  obtain n' d' where a: "a = (n', d')" by (cases a)
  show ?case
  proof (cases "n' = n")
    case True
    with Cons.prems a have "d' = d" "n \<notin> fst ` set ns" by (auto simp: image_iff)
    with Cons.prems a True show ?thesis by (simp add: namespaces_loop_absent)
  next
    case False
    with Cons.prems a have "(n, d) \<in> set ns" "distinct (map fst ns)" by auto
    with Cons.IH Cons.prems a False show ?thesis
      by (auto simp: machines_loop_other split: option.splits)
  qed
qed

lemma namespaces_loop_conflict:
  "(n, d) \<in> set ns \<Longrightarrow> distinct (map fst ns) \<Longrightarrow> \<not> is_deleted d \<Longrightarrow>
   in_conflict (blueprint (deletable_ref d)) \<Longrightarrow> new n = None \<Longrightarrow>
     namespaces_loop old ns new n = old n"
proof (induction ns arbitrary: new)
  case Nil
  then show ?case by simp
next
  case (Cons a ns)
  obtain n' d' where a: "a = (n', d')" by (cases a)
  show ?case
  proof (cases "n' = n")
    case True
    with Cons.prems a have "d' = d" "n \<notin> fst ` set ns" by (auto simp: image_iff)
    with Cons.prems a True show ?thesis
      by (auto simp add: namespaces_loop_absent split: option.splits)
  next
    case False
    with Cons.prems a have "(n, d) \<in> set ns" "distinct (map fst ns)" by auto
    with Cons.IH Cons.prems a False show ?thesis
      by (auto simp: machines_loop_other split: option.splits)
  qed
qed

lemma namespaces_loop_blueprint:
  "(n, d) \<in> set ns \<Longrightarrow> distinct (map fst ns) \<Longrightarrow> \<not> is_deleted d \<Longrightarrow>
   \<not> in_conflict (blueprint (deletable_ref d)) \<Longrightarrow> new n = None \<Longrightarrow>
     primary_of (namespaces_loop old ns new) n r =
       (let ms = primaries_for r (machines_roles (vclock_ref (blueprint (deletable_ref d))))
        in if ms = [] then None else Some (last ms))"
proof (induction ns arbitrary: new)
  case Nil
  then show ?case by simp
next
  case (Cons a ns)
  obtain n' d' where a: "a = (n', d')" by (cases a)
  show ?case
  proof (cases "n' = n")
    case True
    with Cons.prems a have "d' = d" "n \<notin> fst ` set ns" by (auto simp: image_iff)
    with Cons.prems a True
    have "namespaces_loop old (a # ns) new n =
            machines_loop n (machines_roles (vclock_ref (blueprint (deletable_ref d)))) new n"
      by (simp add: namespaces_loop_absent)
    then have "primary_of (namespaces_loop old (a # ns) new) n r =
            primary_of (machines_loop n (machines_roles (vclock_ref (blueprint (deletable_ref d)))) new) n r"
      by (simp add: primary_of_def)
    moreover have "primary_of new n r = None"
      using Cons.prems by (simp add: primary_of_def)
    ultimately show ?thesis
      by (simp add: primary_of_machines_loop Let_def)
  next
    case False
    with Cons.prems a have "(n, d) \<in> set ns" "distinct (map fst ns)" by auto
    with Cons.IH[of _ ] Cons.prems a False show ?thesis
      by (auto simp: machines_loop_other split: option.splits)
  qed
qed

lemma primaries_in_roles_set:
  "set (primaries_in_roles r m roles) \<subseteq> {m}"
  by (induction roles) auto

lemma primaries_in_roles_nonempty:
  "primaries_in_roles r m roles \<noteq> [] \<longleftrightarrow>
     (\<exists>reg. (reg, blueprint_role_primary) \<in> set roles \<and> inner reg = r)"
  by (induction roles) (auto split: if_splits)

lemma set_primaries_for:
  "m \<in> set (primaries_for r bp) \<longleftrightarrow> has_primary_entry bp m r"
proof (induction bp)
  case Nil
  then show ?case by (simp add: has_primary_entry_def)
next
  case (Cons a bp)
  obtain m' roles where a: "a = (m', roles)" by (cases a)
  have "m \<in> set (primaries_in_roles r m' roles) \<longleftrightarrow>
          m = m' \<and> (\<exists>reg. (reg, blueprint_role_primary) \<in> set roles \<and> inner reg = r)"
    by (induction roles) auto
  with Cons a show ?case
    unfolding has_primary_entry_def by auto
qed

lemma namespaces_loop_forget:
  "namespaces_loop old (map (forget_conflicted bp0) ns) new = namespaces_loop old ns new"
proof (induction ns arbitrary: new)
  case Nil
  then show ?case by simp
next
  case (Cons a ns)
  obtain n d where a: "a = (n, d)" by (cases a)
  show ?case using Cons a by (cases d) auto
qed

lemma get_cards_loop_absent:
  "p \<notin> fst ` set dir \<Longrightarrow> get_reactor_business_cards_loop dc dir n res p = res p"
  by (induction dir arbitrary: res) (auto split: option.splits)

lemma dom_get_cards_loop:
  "dom (get_reactor_business_cards_loop dc dir n res) = dom res \<union> fst ` set dir"
proof (induction dir arbitrary: res)
  case Nil
  then show ?case by simp
next
  case (Cons a dir)
  obtain p md where a: "a = (p, md)" by (cases a)
  show ?case unfolding a by (cases "reactor_bcards md n") (auto simp add: Cons.IH)
qed

lemma get_cards_loop_present:
  "(p, md) \<in> set dir \<Longrightarrow> distinct (map fst dir) \<Longrightarrow>
     get_reactor_business_cards_loop dc dir n res p =
       Some (case reactor_bcards md n of Some jt \<Rightarrow> internal jt | None \<Rightarrow> dc)"
proof (induction dir arbitrary: res)
  case Nil
  then show ?case by simp
next
  case (Cons a dir)
  obtain p' md' where a: "a = (p', md')" by (cases a)
  show ?case
  proof (cases "p' = p")
    case True
    with Cons.prems a have "md' = md" "p \<notin> fst ` set dir" by (auto simp: image_iff)
    with a True show ?thesis by (auto simp: get_cards_loop_absent split: option.splits)
  next
    case False
    with Cons.prems a have "(p, md) \<in> set dir" "distinct (map fst dir)" by auto
    with Cons.IH a show ?thesis by (auto split: option.splits)
  qed
qed

section \<open>The invariants hold in every reachable state\<close>

lemma active_ns_Some:
  "active_ns s k = Some n \<longleftrightarrow> (\<exists>c. coros s k = Some c \<and> pc c \<noteq> Unwinding \<and> namespace_id c = n)"
  by (auto simp: active_ns_def split: option.splits)

lemma inv_coros_init: "inv_coros init_repo"
  by (simp add: inv_coros_def init_repo_def active_ns_def)

lemma inv_coros_cong:
  assumes "next_coro s' = next_coro s" "dom (coros s') = dom (coros s)"
    "active_ns s' = active_ns s" "dom (entries s') = dom (entries s)"
  shows "inv_coros s' = inv_coros s"
  using assms by (simp add: inv_coros_def)

lemma inv_coros_fail [simp]: "inv_coros (fail f s) = inv_coros s"
  by (rule inv_coros_cong) (simp_all add: fail_def active_ns_def fun_eq_iff)

lemma active_ns_move:
  assumes "coros s k = Some c0" "pc c0 \<noteq> Unwinding" "namespace_id c = namespace_id c0"
    "pc c \<noteq> Unwinding" "coros s' = (coros s)(k \<mapsto> c)"
  shows "active_ns s' = active_ns s"
  using assms by (auto simp: active_ns_def fun_eq_iff)

lemma dom_coros_move:
  assumes "coros s k = Some c0" "coros s' = (coros s)(k \<mapsto> c)"
  shows "dom (coros s') = dom (coros s)"
  using assms by auto

lemma inv_coros_keep_alive_loop:
  assumes "coros s k = Some c0" "pc c0 \<noteq> Unwinding" "namespace_id c = namespace_id c0"
    "entries s (namespace_id c0) \<noteq> None"
  shows "inv_coros (keep_alive_loop k c e s) = inv_coros s"
proof (rule inv_coros_cong)
  let ?s' = "keep_alive_loop k c e s"
  have "\<exists>c'. pc c' \<noteq> Unwinding \<and> namespace_id c' = namespace_id c0 \<and> coros ?s' = (coros s)(k \<mapsto> c')"
  proof (cases "ref_count e \<noteq> 0")
    case True
    then show ?thesis using assms(3)
      by (intro exI[of _ "c\<lparr>pc := Wait_ref_count_zero\<rparr>"]) (simp add: keep_alive_loop_def)
  next
    case False
    then show ?thesis using assms(3)
      by (intro exI[of _ "c\<lparr>pc := Wait_expiration,
               expiration_timer := Some (NAMESPACE_INTERFACE_EXPIRATION_MS, False)\<rparr>"])
         (simp add: keep_alive_loop_def)
  qed
  then obtain c' where c': "pc c' \<noteq> Unwinding" "namespace_id c' = namespace_id c0"
    "coros ?s' = (coros s)(k \<mapsto> c')" by blast
  show "active_ns ?s' = active_ns s"
    using active_ns_move[OF assms(1,2) c'(2,1,3)] .
  show "dom (coros ?s') = dom (coros s)"
    using dom_coros_move[OF assms(1) c'(3)] .
  show "next_coro ?s' = next_coro s" by (simp add: keep_alive_loop_def)
  show "dom (entries ?s') = dom (entries s)"
    using assms(3,4) by (auto simp: keep_alive_loop_def)
qed

lemma inv_coros_erase_entry:
  assumes "coros s k = Some c" "pc c \<noteq> Unwinding" "inv_coros s"
  shows "inv_coros (erase_entry k c s)"
proof -
  let ?s' = "erase_entry k c s"
  have a: "active_ns ?s' = (active_ns s)(k := None)"
    by (auto simp: active_ns_def erase_entry_def fun_eq_iff)
  have d: "dom (entries ?s') = dom (entries s) - {namespace_id c}"
    by (auto simp: erase_entry_def)
  have c: "dom (coros ?s') = dom (coros s)" using assms(1) by (auto simp: erase_entry_def)
  have n: "next_coro ?s' = next_coro s" by (simp add: erase_entry_def)
  have k: "active_ns s k = Some (namespace_id c)" using assms by (simp add: active_ns_def)
  have u: "\<And>k1 k2 m. active_ns s k1 = Some m \<Longrightarrow> active_ns s k2 = Some m \<Longrightarrow> k1 = k2"
    using assms(3) unfolding inv_coros_def by blast
  have e: "\<And>m. m \<in> dom (entries s) \<longleftrightarrow> (\<exists>k. active_ns s k = Some m)"
    using assms(3) unfolding inv_coros_def by blast
  have b: "\<forall>k\<in>dom (coros s). k < next_coro s"
    using assms(3) unfolding inv_coros_def by blast
  have "\<And>m. m \<in> dom (entries s) - {namespace_id c}
            \<longleftrightarrow> (\<exists>k'. ((active_ns s)(k := None)) k' = Some m)"
  proof
    fix m assume "m \<in> dom (entries s) - {namespace_id c}"
    then obtain k' where k': "active_ns s k' = Some m" and "m \<noteq> namespace_id c"
      using e by auto
    with k have "k' \<noteq> k" by auto
    with k' show "\<exists>k'. ((active_ns s)(k := None)) k' = Some m" by auto
  next
    fix m assume "\<exists>k'. ((active_ns s)(k := None)) k' = Some m"
    then obtain k' where k': "k' \<noteq> k" "active_ns s k' = Some m" by (auto split: if_splits)
    then have "m \<noteq> namespace_id c" using u[OF k] by auto
    with k'(2) e show "m \<in> dom (entries s) - {namespace_id c}" by auto
  qed
  moreover have "\<And>k1 k2 m. ((active_ns s)(k := None)) k1 = Some m \<Longrightarrow>
       ((active_ns s)(k := None)) k2 = Some m \<Longrightarrow> k1 = k2"
    using u by (auto split: if_splits)
  ultimately show ?thesis
    unfolding inv_coros_def a d c n using b by blast
qed

lemma inv_coros_end:
  assumes "coros s k = Some c" "pc c = Unwinding" "inv_coros s"
  shows "inv_coros (s\<lparr>coros := (coros s)(k := None)\<rparr>)"
proof -
  have a: "active_ns (s\<lparr>coros := (coros s)(k := None)\<rparr>) = active_ns s"
    using assms by (auto simp: active_ns_def fun_eq_iff)
  show ?thesis using assms(3) unfolding inv_coros_def a by auto
qed

lemma inv_coros_find_or_create:
  assumes "inv_coros s"
  shows "inv_coros (get_namespace_interface_begin n s)"
proof (cases "entries s n")
  case (Some e)
  then show ?thesis using assms by (simp add: get_namespace_interface_begin_def)
next
  case None
  let ?s' = "get_namespace_interface_begin n s"
  have fresh: "coros s (next_coro s) = None"
    using assms unfolding inv_coros_def by (metis domIff less_irrefl not_None_eq)
  have a: "active_ns ?s' = (active_ns s)(next_coro s \<mapsto> n)"
    using None by (auto simp: active_ns_def get_namespace_interface_begin_def fun_eq_iff)
  have a0: "active_ns s (next_coro s) = None" using fresh by (simp add: active_ns_def)
  have d: "dom (entries ?s') = insert n (dom (entries s))"
    using None by (auto simp: get_namespace_interface_begin_def)
  have c: "dom (coros ?s') = insert (next_coro s) (dom (coros s))"
    using None by (auto simp: get_namespace_interface_begin_def)
  have nx: "next_coro ?s' = Suc (next_coro s)" using None
    by (simp add: get_namespace_interface_begin_def)
  have nn: "\<And>k. active_ns s k \<noteq> Some n"
    using assms None unfolding inv_coros_def by (metis domIff)
  have u: "\<And>k1 k2 m. active_ns s k1 = Some m \<Longrightarrow> active_ns s k2 = Some m \<Longrightarrow> k1 = k2"
    using assms unfolding inv_coros_def by blast
  have e: "\<And>m. m \<in> dom (entries s) \<longleftrightarrow> (\<exists>k. active_ns s k = Some m)"
    using assms unfolding inv_coros_def by blast
  have b: "\<forall>k\<in>dom (coros s). k < next_coro s"
    using assms unfolding inv_coros_def by blast
  have 1: "\<forall>k\<in>insert (next_coro s) (dom (coros s)). k < Suc (next_coro s)"
    using b by (auto simp: less_Suc_eq)
  have 2: "\<And>m. m \<in> insert n (dom (entries s))
            \<longleftrightarrow> (\<exists>k'. ((active_ns s)(next_coro s \<mapsto> n)) k' = Some m)"
  proof
    fix m assume m: "m \<in> insert n (dom (entries s))"
    show "\<exists>k'. ((active_ns s)(next_coro s \<mapsto> n)) k' = Some m"
    proof (cases "m = n")
      case True
      then show ?thesis by (intro exI[of _ "next_coro s"]) simp
    next
      case False
      with m e obtain k' where k': "active_ns s k' = Some m" by auto
      with a0 have "k' \<noteq> next_coro s" by auto
      with k' show ?thesis by (intro exI[of _ k']) simp
    qed
  next
    fix m assume "\<exists>k'. ((active_ns s)(next_coro s \<mapsto> n)) k' = Some m"
    then show "m \<in> insert n (dom (entries s))"
      using e by (auto split: if_splits)
  qed
  have 3: "\<And>k1 k2 m. ((active_ns s)(next_coro s \<mapsto> n)) k1 = Some m \<Longrightarrow>
       ((active_ns s)(next_coro s \<mapsto> n)) k2 = Some m \<Longrightarrow> k1 = k2"
    using u nn by (auto split: if_splits)
  show ?thesis
    unfolding inv_coros_def a d c nx using 1 2 3 by blast
qed

lemma inv_coros_entry:
  "inv_coros s \<Longrightarrow> coros s k = Some c \<Longrightarrow> pc c \<noteq> Unwinding \<Longrightarrow>
     \<exists>e. entries s (namespace_id c) = Some e"
  unfolding inv_coros_def active_ns_Some by (metis domD)

lemma inv_coros_unique:
  "inv_coros s \<Longrightarrow> coros s k = Some c \<Longrightarrow> coros s k' = Some c' \<Longrightarrow> pc c \<noteq> Unwinding \<Longrightarrow>
     pc c' \<noteq> Unwinding \<Longrightarrow> namespace_id c = namespace_id c' \<Longrightarrow> k = k'"
  unfolding inv_coros_def active_ns_Some by blast

lemma inv_coros_owner:
  "inv_coros s \<Longrightarrow> entries s n = Some e \<Longrightarrow>
     \<exists>k c. coros s k = Some c \<and> pc c \<noteq> Unwinding \<and> namespace_id c = n"
  unfolding inv_coros_def active_ns_Some by (metis domI)

lemma inv_coros_fresh: "inv_coros s \<Longrightarrow> coros s (next_coro s) = None"
  unfolding inv_coros_def by (metis domIff less_irrefl not_None_eq)

lemma inv_refsI:
  assumes "\<And>n e. entries s n = Some e \<Longrightarrow> ref_count e = int (handles s n)"
    and "\<And>n. entries s n = None \<Longrightarrow> handles s n = 0"
    and "\<And>k c. coros s k = Some c \<Longrightarrow> pc c = Wait_expiration \<Longrightarrow>
            \<not> conds s (ref_count_is_nonzero k) \<Longrightarrow>
            \<exists>e. entries s (namespace_id c) = Some e \<and> ref_count e = 0 \<and>
              pulse_when_ref_count_becomes_nonzero e = Some (ref_count_is_nonzero k)"
  shows "inv_refs s"
  unfolding inv_refs_def using assms by blast

lemma inv_refs_count: "inv_refs s \<Longrightarrow> entries s n = Some e \<Longrightarrow> ref_count e = int (handles s n)"
  unfolding inv_refs_def by blast

lemma inv_refs_absent: "inv_refs s \<Longrightarrow> entries s n = None \<Longrightarrow> handles s n = 0"
  unfolding inv_refs_def by blast

lemma inv_refs_expiration:
  "inv_refs s \<Longrightarrow> coros s k = Some c \<Longrightarrow> pc c = Wait_expiration \<Longrightarrow>
     \<not> conds s (ref_count_is_nonzero k) \<Longrightarrow>
     \<exists>e. entries s (namespace_id c) = Some e \<and> ref_count e = 0 \<and>
       pulse_when_ref_count_becomes_nonzero e = Some (ref_count_is_nonzero k)"
  unfolding inv_refs_def by blast

lemma inv_slotI:
  assumes "\<And>k c e. coros s k = Some c \<Longrightarrow> early (pc c) \<Longrightarrow>
     entries s (namespace_id c) = Some e \<Longrightarrow> namespace_interface e = None"
  shows "inv_slot s"
  unfolding inv_slot_def using assms by blast

lemma inv_slot_early:
  "inv_slot s \<Longrightarrow> coros s k = Some c \<Longrightarrow> early (pc c) \<Longrightarrow>
     entries s (namespace_id c) = Some e \<Longrightarrow> namespace_interface e = None"
  unfolding inv_slot_def by blast

lemma inv_init: "inv init_repo"
  unfolding inv_def
proof (intro conjI)
  show "inv_coros init_repo" by (rule inv_coros_init)
qed (simp_all add: inv_slot_def inv_refs_def inv_failed_def init_repo_def)

lemma inv_move:
  assumes "inv s" "coros s k = Some c" "namespace_id c' = namespace_id c"
    "pc c \<noteq> Unwinding" "pc c' \<noteq> Unwinding" "early (pc c') \<longrightarrow> early (pc c)"
    "pc c' = Wait_expiration \<longrightarrow> pc c = Wait_expiration"
  shows "inv (s\<lparr>coros := (coros s)(k \<mapsto> c')\<rparr>)"
proof -
  let ?s' = "s\<lparr>coros := (coros s)(k \<mapsto> c')\<rparr>"
  have ic: "inv_coros s" and isl: "inv_slot s" and ir: "inv_refs s" and ifl: "inv_failed s"
    using assms(1) by (simp_all add: inv_def)
  have "inv_coros ?s' = inv_coros s"
    by (rule inv_coros_cong)
       (use assms in \<open>auto simp: active_ns_def fun_eq_iff\<close>)
  moreover have "inv_slot ?s'"
  proof (rule inv_slotI)
    fix k1 c1 e assume h: "coros ?s' k1 = Some c1" "early (pc c1)"
      "entries ?s' (namespace_id c1) = Some e"
    show "namespace_interface e = None"
    proof (cases "k1 = k")
      case True
      with h assms have "early (pc c)" "entries s (namespace_id c) = Some e" by auto
      with isl assms(2) show ?thesis by (rule_tac inv_slot_early)
    next
      case False
      with h have "coros s k1 = Some c1" "entries s (namespace_id c1) = Some e" by auto
      with isl h(2) show ?thesis by (rule_tac inv_slot_early)
    qed
  qed
  moreover have "inv_refs ?s'"
  proof (rule inv_refsI)
    fix n e assume "entries ?s' n = Some e"
    then show "ref_count e = int (handles ?s' n)" using inv_refs_count[OF ir] by simp
  next
    fix n assume "entries ?s' n = None"
    then show "handles ?s' n = 0" using inv_refs_absent[OF ir] by simp
  next
    fix k1 c1 assume h: "coros ?s' k1 = Some c1" "pc c1 = Wait_expiration"
      "\<not> conds ?s' (ref_count_is_nonzero k1)"
    show "\<exists>e. entries ?s' (namespace_id c1) = Some e \<and> ref_count e = 0 \<and>
              pulse_when_ref_count_becomes_nonzero e = Some (ref_count_is_nonzero k1)"
    proof (cases "k1 = k")
      case True
      with h assms have "pc c = Wait_expiration" "\<not> conds s (ref_count_is_nonzero k)"
        "namespace_id c1 = namespace_id c" by auto
      with inv_refs_expiration[OF ir assms(2)] True show ?thesis by simp
    next
      case False
      with h have "coros s k1 = Some c1" "\<not> conds s (ref_count_is_nonzero k1)" by auto
      with inv_refs_expiration[OF ir _ h(2)] show ?thesis by simp
    qed
  qed
  moreover have "inv_failed ?s'"
    using ifl unfolding inv_failed_def by simp
  ultimately show ?thesis using ic by (simp add: inv_def)
qed

lemma inv_end:
  assumes "inv s" "coros s k = Some c" "pc c = Unwinding"
  shows "inv (s\<lparr>coros := (coros s)(k := None)\<rparr>)"
proof -
  let ?s' = "s\<lparr>coros := (coros s)(k := None)\<rparr>"
  have ic: "inv_coros s" and isl: "inv_slot s" and ir: "inv_refs s" and ifl: "inv_failed s"
    using assms(1) by (simp_all add: inv_def)
  have "inv_coros ?s'" using assms(2,3) ic by (rule inv_coros_end)
  moreover have "inv_slot ?s'"
  proof (rule inv_slotI)
    fix k1 c1 e assume h: "coros ?s' k1 = Some c1" "early (pc c1)"
      "entries ?s' (namespace_id c1) = Some e"
    then have "coros s k1 = Some c1" "entries s (namespace_id c1) = Some e"
      by (auto split: if_splits)
    with isl h(2) show "namespace_interface e = None" by (rule_tac inv_slot_early)
  qed
  moreover have "inv_refs ?s'"
  proof (rule inv_refsI)
    fix n e assume "entries ?s' n = Some e"
    then show "ref_count e = int (handles ?s' n)" using inv_refs_count[OF ir] by simp
  next
    fix n assume "entries ?s' n = None"
    then show "handles ?s' n = 0" using inv_refs_absent[OF ir] by simp
  next
    fix k1 c1 assume h: "coros ?s' k1 = Some c1" "pc c1 = Wait_expiration"
      "\<not> conds ?s' (ref_count_is_nonzero k1)"
    then have "coros s k1 = Some c1" "\<not> conds s (ref_count_is_nonzero k1)"
      by (auto split: if_splits)
    with inv_refs_expiration[OF ir _ h(2)]
    show "\<exists>e. entries ?s' (namespace_id c1) = Some e \<and> ref_count e = 0 \<and>
              pulse_when_ref_count_becomes_nonzero e = Some (ref_count_is_nonzero k1)"
      by simp
  qed
  moreover have "inv_failed ?s'"
    using ifl unfolding inv_failed_def by simp
  ultimately show ?thesis by (simp add: inv_def)
qed

lemma inv_fail_interrupted:
  assumes "inv s"
  shows "inv (fail Guarantee_ref_count_zero_when_interrupted s)"
  using assms unfolding inv_def inv_coros_fail
  by (simp add: inv_slot_def inv_refs_def inv_failed_def fail_def)

lemma inv_drain:
  assumes "inv s"
  shows "inv (s\<lparr>drain_signal := True\<rparr>)"
proof -
  have "inv_coros (s\<lparr>drain_signal := True\<rparr>) = inv_coros s"
    by (rule inv_coros_cong) (simp_all add: active_ns_def fun_eq_iff)
  with assms show ?thesis
    by (simp add: inv_def inv_slot_def inv_refs_def inv_failed_def)
qed

lemma inv_erase_entry:
  assumes "inv s" "coros s k = Some c" "pc c \<noteq> Unwinding"
    "entries s (namespace_id c) = Some e" "ref_count e = 0"
  shows "inv (erase_entry k c s)"
proof -
  let ?s' = "erase_entry k c s"
  have ic: "inv_coros s" and isl: "inv_slot s" and ir: "inv_refs s" and ifl: "inv_failed s"
    using assms(1) by (simp_all add: inv_def)
  have u: "\<And>k' c'. coros s k' = Some c' \<Longrightarrow> pc c' \<noteq> Unwinding \<Longrightarrow> k' \<noteq> k \<Longrightarrow>
             namespace_id c' \<noteq> namespace_id c"
    using inv_coros_unique[OF ic _ assms(2) _ assms(3)] by blast
  have en: "entries ?s' = (entries s)(namespace_id c := None)"
    and co: "coros ?s' = (coros s)(k \<mapsto> c\<lparr>pc := Unwinding, expiration_timer := None\<rparr>)"
    and cd: "conds ?s' = conds s" and ha: "handles ?s' = handles s" and fa: "failed ?s' = failed s"
    by (simp_all add: erase_entry_def)
  have "inv_coros ?s'" using assms(2,3) ic by (rule inv_coros_erase_entry)
  moreover have "inv_slot ?s'"
  proof (rule inv_slotI)
    fix k1 c1 e1 assume h: "coros ?s' k1 = Some c1" "early (pc c1)"
      "entries ?s' (namespace_id c1) = Some e1"
    then have "k1 \<noteq> k" unfolding co by (auto simp: early_def)
    with h have "coros s k1 = Some c1" "entries s (namespace_id c1) = Some e1"
      unfolding co en by (auto split: if_splits)
    with isl h(2) show "namespace_interface e1 = None" by (rule_tac inv_slot_early)
  qed
  moreover have "inv_refs ?s'"
  proof (rule inv_refsI)
    fix n e' assume "entries ?s' n = Some e'"
    then show "ref_count e' = int (handles ?s' n)"
      unfolding en ha using inv_refs_count[OF ir] by (auto split: if_splits)
  next
    fix n assume n: "entries ?s' n = None"
    show "handles ?s' n = 0"
    proof (cases "n = namespace_id c")
      case True
      then show ?thesis unfolding ha using inv_refs_count[OF ir assms(4)] assms(5) by simp
    next
      case False
      with n show ?thesis unfolding en ha using inv_refs_absent[OF ir] by simp
    qed
  next
    fix k' c' assume h: "coros ?s' k' = Some c'" "pc c' = Wait_expiration"
      "\<not> conds ?s' (ref_count_is_nonzero k')"
    then have k': "k' \<noteq> k" "coros s k' = Some c'" "\<not> conds s (ref_count_is_nonzero k')"
      unfolding co cd by (auto split: if_splits)
    then have "namespace_id c' \<noteq> namespace_id c" using u h by auto
    with inv_refs_expiration[OF ir k'(2) h(2) k'(3)]
    show "\<exists>e. entries ?s' (namespace_id c') = Some e \<and> ref_count e = 0 \<and>
             pulse_when_ref_count_becomes_nonzero e = Some (ref_count_is_nonzero k')"
      unfolding en by simp
  qed
  moreover have "inv_failed ?s'"
    using ifl unfolding inv_failed_def fa by simp
  ultimately show ?thesis by (simp add: inv_def)
qed

lemma inv_keep_alive_loop:
  assumes "inv s" "coros s k = Some c0" "pc c0 \<noteq> Unwinding"
    "entries s (namespace_id c0) = Some e0" "namespace_id c = namespace_id c0"
    "ref_count e = ref_count e0"
  shows "inv (keep_alive_loop k c e s)"
proof -
  let ?s' = "keep_alive_loop k c e s"
  have ic: "inv_coros s" and isl: "inv_slot s" and ir: "inv_refs s" and ifl: "inv_failed s"
    using assms(1) by (simp_all add: inv_def)
  have u: "\<And>k' c'. coros s k' = Some c' \<Longrightarrow> pc c' \<noteq> Unwinding \<Longrightarrow> k' \<noteq> k \<Longrightarrow>
             namespace_id c' \<noteq> namespace_id c0"
    using inv_coros_unique[OF ic _ assms(2) _ assms(3)] by blast
  obtain e1 c1 where
    en: "entries ?s' = (entries s)(namespace_id c0 \<mapsto> e1)"
    and co: "coros ?s' = (coros s)(k \<mapsto> c1)"
    and rc: "ref_count e1 = ref_count e0"
    and pc1: "pc c1 = (if ref_count e0 \<noteq> 0 then Wait_ref_count_zero else Wait_expiration)"
    and nz: "ref_count e0 = 0 \<Longrightarrow> pulse_when_ref_count_becomes_nonzero e1 = Some (ref_count_is_nonzero k)"
    and ns1: "namespace_id c1 = namespace_id c0"
    and cd: "\<And>k'. k' \<noteq> k \<Longrightarrow> conds ?s' (ref_count_is_nonzero k') = conds s (ref_count_is_nonzero k')"
    and ha: "handles ?s' = handles s" and fa: "failed ?s' = failed s"
    using assms(5,6) by (cases "ref_count e0 = 0") (simp_all add: keep_alive_loop_def)
  have "inv_coros ?s'"
    using inv_coros_keep_alive_loop[OF assms(2,3,5)] assms(4) ic by simp
  moreover have "inv_slot ?s'"
  proof (rule inv_slotI)
    fix k1 c' e' assume h: "coros ?s' k1 = Some c'" "early (pc c')"
      "entries ?s' (namespace_id c') = Some e'"
    then have k1: "k1 \<noteq> k" unfolding co using pc1 by (auto simp: early_def split: if_splits)
    with h have c': "coros s k1 = Some c'" unfolding co by simp
    with h(2) k1 have "namespace_id c' \<noteq> namespace_id c0" using u by (auto simp: early_def)
    with h(3) have "entries s (namespace_id c') = Some e'" unfolding en by simp
    with isl c' h(2) show "namespace_interface e' = None" by (rule_tac inv_slot_early)
  qed
  moreover have "inv_refs ?s'"
  proof (rule inv_refsI)
    fix n e' assume "entries ?s' n = Some e'"
    then show "ref_count e' = int (handles ?s' n)"
      unfolding en ha using inv_refs_count[OF ir] rc assms(4) by (auto split: if_splits)
  next
    fix n assume n: "entries ?s' n = None"
    then show "handles ?s' n = 0"
      unfolding en ha using inv_refs_absent[OF ir] by (auto split: if_splits)
  next
    fix k' c' assume h: "coros ?s' k' = Some c'" "pc c' = Wait_expiration"
      "\<not> conds ?s' (ref_count_is_nonzero k')"
    show "\<exists>e. entries ?s' (namespace_id c') = Some e \<and> ref_count e = 0 \<and>
             pulse_when_ref_count_becomes_nonzero e = Some (ref_count_is_nonzero k')"
    proof (cases "k' = k")
      case True
      with h co pc1 have "c' = c1" "ref_count e0 = 0" by (auto split: if_splits)
      with True nz rc ns1 show ?thesis unfolding en by simp
    next
      case False
      with h have k': "coros s k' = Some c'" "\<not> conds s (ref_count_is_nonzero k')"
        unfolding co using cd by auto
      then have "namespace_id c' \<noteq> namespace_id c0" using u h False by auto
      with inv_refs_expiration[OF ir k'(1) h(2) k'(2)] show ?thesis unfolding en by simp
    qed
  qed
  moreover have "inv_failed ?s'"
    using ifl unfolding inv_failed_def fa by simp
  ultimately show ?thesis by (simp add: inv_def)
qed

lemma inv_find_or_create:
  assumes "inv s"
  shows "inv (get_namespace_interface_begin n s)"
proof (cases "entries s n")
  case (Some e)
  then show ?thesis using assms by (simp add: get_namespace_interface_begin_def)
next
  case None
  let ?s' = "get_namespace_interface_begin n s"
  let ?e = "\<lparr>namespace_interface = None, ref_count = 0,
             pulse_when_ref_count_becomes_zero = None,
             pulse_when_ref_count_becomes_nonzero = None\<rparr>"
  let ?c = "\<lparr>namespace_id = n, pc = Spawned, initial_ready = False, expiration_timer = None\<rparr>"
  have ic: "inv_coros s" and isl: "inv_slot s" and ir: "inv_refs s" and ifl: "inv_failed s"
    using assms(1) by (simp_all add: inv_def)
  have fresh: "coros s (next_coro s) = None" using ic by (rule inv_coros_fresh)
  have en: "entries ?s' = (entries s)(n \<mapsto> ?e)"
    and co: "coros ?s' = (coros s)(next_coro s \<mapsto> ?c)"
    and cd: "conds ?s' = conds s" and ha: "handles ?s' = handles s" and fa: "failed ?s' = failed s"
    using None by (simp_all add: get_namespace_interface_begin_def)
  have "inv_coros ?s'" using ic by (rule inv_coros_find_or_create)
  moreover have "inv_slot ?s'"
  proof (rule inv_slotI)
    fix k1 c1 e1 assume h: "coros ?s' k1 = Some c1" "early (pc c1)"
      "entries ?s' (namespace_id c1) = Some e1"
    show "namespace_interface e1 = None"
    proof (cases "namespace_id c1 = n")
      case True
      with h(3) show ?thesis unfolding en by auto
    next
      case False
      with h have "coros s k1 = Some c1" "entries s (namespace_id c1) = Some e1"
        unfolding co en by (auto split: if_splits)
      with isl h(2) show ?thesis by (rule_tac inv_slot_early)
    qed
  qed
  moreover have "inv_refs ?s'"
  proof (rule inv_refsI)
    fix m e' assume "entries ?s' m = Some e'"
    then show "ref_count e' = int (handles ?s' m)"
      unfolding en ha using inv_refs_count[OF ir] inv_refs_absent[OF ir None]
      by (auto split: if_splits)
  next
    fix m assume "entries ?s' m = None"
    then show "handles ?s' m = 0"
      unfolding en ha using inv_refs_absent[OF ir] by (auto split: if_splits)
  next
    fix k' c' assume h: "coros ?s' k' = Some c'" "pc c' = Wait_expiration"
      "\<not> conds ?s' (ref_count_is_nonzero k')"
    then have k': "coros s k' = Some c'" "\<not> conds s (ref_count_is_nonzero k')"
      unfolding co cd by (auto split: if_splits)
    from inv_refs_expiration[OF ir k'(1) h(2) k'(2)] obtain e where
      e: "entries s (namespace_id c') = Some e" "ref_count e = 0"
         "pulse_when_ref_count_becomes_nonzero e = Some (ref_count_is_nonzero k')" by blast
    with None have "namespace_id c' \<noteq> n" by auto
    with e show "\<exists>e. entries ?s' (namespace_id c') = Some e \<and> ref_count e = 0 \<and>
             pulse_when_ref_count_becomes_nonzero e = Some (ref_count_is_nonzero k')"
      unfolding en by simp
  qed
  moreover have "inv_failed ?s'"
    using ifl unfolding inv_failed_def fa by simp
  ultimately show ?thesis by (simp add: inv_def)
qed

lemma add_ref_props:
  assumes "add_ref e cs = (e', cs')"
  shows "e' = e\<lparr>ref_count := ref_count e + 1\<rparr>"
    and "\<And>a. cs a \<Longrightarrow> cs' a"
    and "\<And>a. ref_count e = 0 \<Longrightarrow> pulse_when_ref_count_becomes_nonzero e = Some a \<Longrightarrow> cs' a"
  using assms
  by (auto simp: add_ref_def Let_def pulse_if_not_already_pulsed_def
      split: if_splits option.splits)

lemma release_props:
  assumes "release e cs = (e', cs')"
  shows "e' = e\<lparr>ref_count := ref_count e - 1\<rparr>"
    and "\<And>a. cs a \<Longrightarrow> cs' a"
  using assms
  by (auto simp: release_def Let_def pulse_if_not_already_pulsed_def
      split: if_splits option.splits)

text \<open>An entry is replaced by one whose count follows the number of handles.\<close>

lemma inv_handle_change:
  assumes "inv s" "entries s n = Some e"
    "namespace_interface e' = namespace_interface e"
    "ref_count e' = int h"
    "\<And>a. conds s a \<Longrightarrow> cs' a"
    "\<And>k. ref_count e = 0 \<Longrightarrow>
        pulse_when_ref_count_becomes_nonzero e = Some (ref_count_is_nonzero k) \<Longrightarrow>
        cs' (ref_count_is_nonzero k)"
  shows "inv (s\<lparr>entries := (entries s)(n \<mapsto> e'), conds := cs',
               handles := (handles s)(n := h)\<rparr>)"
proof -
  let ?s' = "s\<lparr>entries := (entries s)(n \<mapsto> e'), conds := cs', handles := (handles s)(n := h)\<rparr>"
  have ic: "inv_coros s" and isl: "inv_slot s" and ir: "inv_refs s" and ifl: "inv_failed s"
    using assms(1) by (simp_all add: inv_def)
  have "inv_coros ?s' = inv_coros s"
    by (rule inv_coros_cong) (use assms(2) in \<open>auto simp: active_ns_def fun_eq_iff\<close>)
  moreover have "inv_slot ?s'"
  proof (rule inv_slotI)
    fix k1 c1 e1 assume h: "coros ?s' k1 = Some c1" "early (pc c1)"
      "entries ?s' (namespace_id c1) = Some e1"
    show "namespace_interface e1 = None"
    proof (cases "namespace_id c1 = n")
      case True
      with h have "coros s k1 = Some c1" "entries s (namespace_id c1) = Some e" "e1 = e'"
        using assms(2) by auto
      with inv_slot_early[OF isl _ h(2)] assms(3) show ?thesis by simp
    next
      case False
      with h have "coros s k1 = Some c1" "entries s (namespace_id c1) = Some e1" by auto
      with isl h(2) show ?thesis by (rule_tac inv_slot_early)
    qed
  qed
  moreover have "inv_refs ?s'"
  proof (rule inv_refsI)
    fix m e1 assume "entries ?s' m = Some e1"
    then show "ref_count e1 = int (handles ?s' m)"
      using inv_refs_count[OF ir] assms(4) by (auto split: if_splits)
  next
    fix m assume "entries ?s' m = None"
    then show "handles ?s' m = 0"
      using inv_refs_absent[OF ir] by (auto split: if_splits)
  next
    fix k' c' assume h: "coros ?s' k' = Some c'" "pc c' = Wait_expiration"
      "\<not> conds ?s' (ref_count_is_nonzero k')"
    then have k': "coros s k' = Some c'" "\<not> conds s (ref_count_is_nonzero k')"
      "\<not> cs' (ref_count_is_nonzero k')"
      using assms(5) by auto
    from inv_refs_expiration[OF ir k'(1) h(2) k'(2)] obtain e1 where
      e1: "entries s (namespace_id c') = Some e1" "ref_count e1 = 0"
         "pulse_when_ref_count_becomes_nonzero e1 = Some (ref_count_is_nonzero k')" by blast
    have "namespace_id c' \<noteq> n"
    proof
      assume "namespace_id c' = n"
      with e1 assms(2) have "e1 = e" by simp
      with e1 assms(6) k'(3) show False by blast
    qed
    with e1 show "\<exists>e. entries ?s' (namespace_id c') = Some e \<and> ref_count e = 0 \<and>
             pulse_when_ref_count_becomes_nonzero e = Some (ref_count_is_nonzero k')"
      by simp
  qed
  moreover have "inv_failed ?s'"
    using ifl unfolding inv_failed_def by simp
  ultimately show ?thesis using ic by (simp add: inv_def)
qed

lemma inv_get_returned:
  assumes "inv s" "get_returned n s = Some s'"
  shows "inv s'"
proof -
  from assms(2) obtain e where e: "entries s n = Some e"
    by (auto simp: get_returned_def get_namespace_interface_resume_def split: option.splits)
  obtain e' cs' where a: "add_ref e (conds s) = (e', cs')" by (cases "add_ref e (conds s)")
  from assms(2) e a have s': "s' = s\<lparr>entries := (entries s)(n \<mapsto> e'), conds := cs',
               handles := (handles s)(n := handles s n + 1)\<rparr>"
    by (auto simp: get_returned_def get_namespace_interface_resume_def wait_interruptible_def
        split: if_splits)
  have ir: "inv_refs s" using assms(1) by (simp add: inv_def)
  show ?thesis unfolding s'
    by (rule inv_handle_change[OF assms(1) e])
       (use add_ref_props[OF a] inv_refs_count[OF ir e] in auto)
qed

lemma inv_handle_copied:
  assumes "inv s" "handle_copied n s = Some s'"
  shows "inv s'"
proof -
  have ir: "inv_refs s" using assms(1) by (simp add: inv_def)
  from assms(2) have h: "handles s n \<noteq> 0" by (auto simp: handle_copied_def split: if_splits)
  with inv_refs_absent[OF ir, of n] obtain e where e: "entries s n = Some e" by auto
  obtain e' cs' where a: "add_ref e (conds s) = (e', cs')" by (cases "add_ref e (conds s)")
  from assms(2) e a h have s': "s' = s\<lparr>entries := (entries s)(n \<mapsto> e'), conds := cs',
               handles := (handles s)(n := handles s n + 1)\<rparr>"
    by (auto simp: handle_copied_def)
  show ?thesis unfolding s'
    by (rule inv_handle_change[OF assms(1) e])
       (use add_ref_props[OF a] inv_refs_count[OF ir e] in auto)
qed

lemma inv_handle_destroyed:
  assumes "inv s" "handle_destroyed n s = Some s'"
  shows "inv s'"
proof -
  have ir: "inv_refs s" using assms(1) by (simp add: inv_def)
  from assms(2) have h: "handles s n \<noteq> 0" by (auto simp: handle_destroyed_def split: if_splits)
  with inv_refs_absent[OF ir, of n] obtain e where e: "entries s n = Some e" by auto
  obtain e' cs' where a: "release e (conds s) = (e', cs')" by (cases "release e (conds s)")
  from assms(2) e a h have s': "s' = s\<lparr>entries := (entries s)(n \<mapsto> e'), conds := cs',
               handles := (handles s)(n := handles s n - 1)\<rparr>"
    by (auto simp: handle_destroyed_def)
  show ?thesis unfolding s'
    by (rule inv_handle_change[OF assms(1) e])
       (use release_props[OF a] inv_refs_count[OF ir e] h in auto)
qed

lemma inv_initial_ready_pulsed:
  assumes "inv s" "initial_ready_pulsed k s = Some s'"
  shows "inv s'"
proof -
  from assms(2) obtain c where c: "coros s k = Some c" "pc c = Wait_initial_ready"
    "s' = s\<lparr>coros := (coros s)(k \<mapsto> c\<lparr>initial_ready := True\<rparr>)\<rparr>"
    by (auto simp: initial_ready_pulsed_def split: option.splits if_splits)
  show ?thesis unfolding c(3)
    by (rule inv_move[OF assms(1) c(1)]) (use c(2) in simp_all)
qed

lemma inv_timer_fired:
  assumes "inv s" "timer_fired k s = Some s'"
  shows "inv s'"
proof -
  from assms(2) obtain c ms fired where c: "coros s k = Some c"
    "expiration_timer c = Some (ms, fired)"
    "s' = s\<lparr>coros := (coros s)(k \<mapsto> c\<lparr>expiration_timer := Some (ms, True)\<rparr>)\<rparr>"
    by (auto simp: timer_fired_def split: option.splits)
  show ?thesis
  proof (cases "pc c = Unwinding")
    case False
    show ?thesis unfolding c(3)
      by (rule inv_move[OF assms(1) c(1)]) (use False in simp_all)
  next
    case True
    have ic: "inv_coros s" and isl: "inv_slot s" and ir: "inv_refs s" and ifl: "inv_failed s"
      using assms(1) by (simp_all add: inv_def)
    have "inv_coros s' = inv_coros s"
      by (rule inv_coros_cong)
         (use c True in \<open>auto simp: active_ns_def fun_eq_iff\<close>)
    moreover have "inv_slot s'"
    proof (rule inv_slotI)
      fix k1 c1 e assume h: "coros s' k1 = Some c1" "early (pc c1)"
        "entries s' (namespace_id c1) = Some e"
      then have "k1 \<noteq> k" using c True by (auto simp: early_def)
      with h c have "coros s k1 = Some c1" "entries s (namespace_id c1) = Some e" by auto
      with isl h(2) show "namespace_interface e = None" by (rule_tac inv_slot_early)
    qed
    moreover have "inv_refs s'"
    proof (rule inv_refsI)
      fix n e assume "entries s' n = Some e"
      then show "ref_count e = int (handles s' n)" using inv_refs_count[OF ir] c by simp
    next
      fix n assume "entries s' n = None"
      then show "handles s' n = 0" using inv_refs_absent[OF ir] c by simp
    next
      fix k1 c1 assume h: "coros s' k1 = Some c1" "pc c1 = Wait_expiration"
        "\<not> conds s' (ref_count_is_nonzero k1)"
      then have "k1 \<noteq> k" using c True by auto
      with h c have "coros s k1 = Some c1" "\<not> conds s (ref_count_is_nonzero k1)" by auto
      with inv_refs_expiration[OF ir _ h(2)] c
      show "\<exists>e. entries s' (namespace_id c1) = Some e \<and> ref_count e = 0 \<and>
              pulse_when_ref_count_becomes_nonzero e = Some (ref_count_is_nonzero k1)"
        by simp
    qed
    moreover have "inv_failed s'" using ifl c unfolding inv_failed_def by simp
    ultimately show ?thesis using ic by (simp add: inv_def)
  qed
qed

lemma inv_on_interrupted:
  assumes "inv s" "coros s k = Some c" "pc c \<noteq> Unwinding"
    "entries s (namespace_id c) = Some e0" "ref_count e = ref_count e0"
  shows "inv (on_interrupted k c e s)"
proof (cases "ref_count e = 0")
  case True
  then show ?thesis
    using inv_erase_entry[OF assms(1-4)] assms(5) by (simp add: on_interrupted_def)
next
  case False
  then show ?thesis
    using inv_fail_interrupted[OF assms(1)] by (simp add: on_interrupted_def)
qed

lemma inv_resume:
  assumes "inv s" "create_and_destroy_namespace_interface k s = Some s'"
  shows "inv s'"
proof -
  have ic: "inv_coros s" and isl: "inv_slot s" and ir: "inv_refs s"
    using assms(1) by (simp_all add: inv_def)
  from assms(2) obtain c where c: "coros s k = Some c"
    by (auto simp: create_and_destroy_namespace_interface_def split: option.splits)
  show ?thesis
  proof (cases "pc c")
    case Spawned
    then obtain e where e: "entries s (namespace_id c) = Some e"
      using inv_coros_entry[OF ic c] by auto
    have "namespace_interface e = None"
      using inv_slot_early[OF isl c _ e] Spawned by (simp add: early_def)
    with assms(2) c Spawned e
    have s': "s' = s\<lparr>coros := (coros s)(k \<mapsto> c\<lparr>pc := To_home_thread\<rparr>)\<rparr>"
      by (simp add: create_and_destroy_namespace_interface_def resume_spawned_def)
    show ?thesis unfolding s'
      by (rule inv_move[OF assms(1) c]) (use Spawned in \<open>simp_all add: early_def\<close>)
  next
    case To_home_thread
    with assms(2) c
    have s': "s' = s\<lparr>coros := (coros s)(k \<mapsto> c\<lparr>pc := To_own_thread\<rparr>)\<rparr>"
      by (simp add: create_and_destroy_namespace_interface_def)
    show ?thesis unfolding s'
      by (rule inv_move[OF assms(1) c]) (use To_home_thread in \<open>simp_all add: early_def\<close>)
  next
    case To_own_thread
    with assms(2) c
    have s': "s' = s\<lparr>coros := (coros s)(k \<mapsto> c\<lparr>pc := Wait_initial_ready\<rparr>)\<rparr>"
      by (simp add: create_and_destroy_namespace_interface_def)
    show ?thesis unfolding s'
      by (rule inv_move[OF assms(1) c]) (use To_own_thread in \<open>simp_all add: early_def\<close>)
  next
    case Wait_initial_ready
    then have act: "pc c \<noteq> Unwinding" by simp
    obtain e where e: "entries s (namespace_id c) = Some e"
      using inv_coros_entry[OF ic c act] by auto
    have slot: "namespace_interface e = None"
      using inv_slot_early[OF isl c _ e] Wait_initial_ready by (simp add: early_def)
    from assms(2) c Wait_initial_ready e slot
    consider "s' = on_interrupted k c e s"
      | "s' = keep_alive_loop k c (e\<lparr>namespace_interface := Some k\<rparr>) s"
      by (auto simp: create_and_destroy_namespace_interface_def
          resume_wait_initial_ready_def split: wait_result.splits)
    then show ?thesis
    proof cases
      case 1
      show ?thesis unfolding 1 by (rule inv_on_interrupted[OF assms(1) c act e]) simp
    next
      case 2
      show ?thesis unfolding 2 by (rule inv_keep_alive_loop[OF assms(1) c act e]) simp_all
    qed
  next
    case Wait_ref_count_zero
    then have act: "pc c \<noteq> Unwinding" by simp
    obtain e where e: "entries s (namespace_id c) = Some e"
      using inv_coros_entry[OF ic c act] by auto
    from assms(2) c Wait_ref_count_zero e
    consider "s' = on_interrupted k c (e\<lparr>pulse_when_ref_count_becomes_zero := None\<rparr>) s"
      | "s' = keep_alive_loop k c (e\<lparr>pulse_when_ref_count_becomes_zero := None\<rparr>) s"
      by (auto simp: create_and_destroy_namespace_interface_def
          resume_wait_ref_count_zero_def split: wait_result.splits)
    then show ?thesis
    proof cases
      case 1
      show ?thesis unfolding 1 by (rule inv_on_interrupted[OF assms(1) c act e]) simp
    next
      case 2
      show ?thesis unfolding 2 by (rule inv_keep_alive_loop[OF assms(1) c act e]) simp_all
    qed
  next
    case Wait_expiration
    then have act: "pc c \<noteq> Unwinding" by simp
    obtain e where e: "entries s (namespace_id c) = Some e"
      using inv_coros_entry[OF ic c act] by auto
    have zero: "\<not> conds s (ref_count_is_nonzero k) \<Longrightarrow> ref_count e = 0"
      using inv_refs_expiration[OF ir c Wait_expiration] e by auto
    from assms(2) c Wait_expiration e zero
    consider "s' = on_interrupted k c (e\<lparr>pulse_when_ref_count_becomes_nonzero := None\<rparr>) s"
      | "ref_count e = 0" "s' = erase_entry k c s"
      | "s' = keep_alive_loop k (c\<lparr>expiration_timer := None\<rparr>)
                (e\<lparr>pulse_when_ref_count_becomes_nonzero := None\<rparr>) s"
      by (auto simp: create_and_destroy_namespace_interface_def
          resume_wait_expiration_def split: wait_result.splits if_splits)
    then show ?thesis
    proof cases
      case 1
      show ?thesis unfolding 1 by (rule inv_on_interrupted[OF assms(1) c act e]) simp
    next
      case 2
      show ?thesis unfolding 2(2) by (rule inv_erase_entry[OF assms(1) c act e 2(1)])
    next
      case 3
      show ?thesis unfolding 3 by (rule inv_keep_alive_loop[OF assms(1) c act e]) simp_all
    qed
  next
    case Unwinding
    with assms(2) c have s': "s' = s\<lparr>coros := (coros s)(k := None)\<rparr>"
      by (simp add: create_and_destroy_namespace_interface_def)
    show ?thesis unfolding s' by (rule inv_end[OF assms(1) c Unwinding])
  qed
qed

lemma inv_fire:
  assumes "inv s" "fire ev s = Some s'"
  shows "inv s'"
proof (cases ev)
  case (Get_called n)
  with assms show ?thesis by (auto simp: fire_def inv_find_or_create split: if_splits)
next
  case (Get_returned n)
  with assms show ?thesis by (auto simp: fire_def intro: inv_get_returned split: if_splits)
next
  case (Handle_copied n)
  with assms show ?thesis by (auto simp: fire_def intro: inv_handle_copied split: if_splits)
next
  case (Handle_destroyed n)
  with assms show ?thesis by (auto simp: fire_def intro: inv_handle_destroyed split: if_splits)
next
  case (Initial_ready k)
  with assms show ?thesis by (auto simp: fire_def intro: inv_initial_ready_pulsed split: if_splits)
next
  case (Timer_fired k)
  with assms show ?thesis by (auto simp: fire_def intro: inv_timer_fired split: if_splits)
next
  case Drain
  with assms show ?thesis by (auto simp: fire_def inv_drain split: if_splits)
next
  case (Resume k)
  with assms show ?thesis by (auto simp: fire_def intro: inv_resume split: if_splits)
qed

lemma reachable_inv: "reachable s \<Longrightarrow> inv s"
  by (induction rule: reachable.induct) (auto intro: inv_init inv_fire)

lemma inv_timer_init: "inv_timer init_repo"
  by (simp add: inv_timer_def init_repo_def)

lemma inv_timer_upd:
  assumes "inv_timer s" "timer_ok c" "coros s' = (coros s)(k \<mapsto> c)"
  shows "inv_timer s'"
  using assms unfolding inv_timer_def by auto

lemma inv_timer_same:
  assumes "inv_timer s" "coros s' = coros s"
  shows "inv_timer s'"
  using assms unfolding inv_timer_def by auto

lemma inv_timer_D: "inv_timer s \<Longrightarrow> coros s k = Some c \<Longrightarrow> timer_ok c"
  unfolding inv_timer_def by blast

lemma timer_ok_no_timer:
  "timer_ok c \<Longrightarrow> pc c \<noteq> Wait_expiration \<Longrightarrow> expiration_timer c = None"
  by (auto simp: timer_ok_def split: option.splits)

lemma timer_ok_move:
  "expiration_timer c = None \<Longrightarrow> p \<noteq> Wait_expiration \<Longrightarrow> timer_ok (c\<lparr>pc := p\<rparr>)"
  by (simp add: timer_ok_def)

lemma inv_timer_keep_alive_loop:
  assumes "inv_timer s" "expiration_timer c = None"
  shows "inv_timer (keep_alive_loop k c e s)"
proof (cases "ref_count e = 0")
  case True
  show ?thesis
    by (rule inv_timer_upd[OF assms(1), where k = k and c = "c\<lparr>pc := Wait_expiration,
               expiration_timer := Some (NAMESPACE_INTERFACE_EXPIRATION_MS, False)\<rparr>"])
       (simp_all add: keep_alive_loop_def True timer_ok_def)
next
  case False
  show ?thesis
    by (rule inv_timer_upd[OF assms(1), where k = k and c = "c\<lparr>pc := Wait_ref_count_zero\<rparr>"])
       (simp_all add: keep_alive_loop_def False timer_ok_def assms(2))
qed

lemma inv_timer_erase_entry:
  assumes "inv_timer s"
  shows "inv_timer (erase_entry k c s)"
  by (rule inv_timer_upd[OF assms, where k = k and c = "c\<lparr>pc := Unwinding, expiration_timer := None\<rparr>"])
     (simp_all add: erase_entry_def timer_ok_def)

lemma inv_timer_fail:
  assumes "inv_timer s"
  shows "inv_timer (fail f s)"
  by (rule inv_timer_same[OF assms]) (simp add: fail_def)

lemma inv_timer_on_interrupted:
  assumes "inv_timer s"
  shows "inv_timer (on_interrupted k c e s)"
  using inv_timer_erase_entry[OF assms] inv_timer_fail[OF assms]
  by (simp add: on_interrupted_def)

lemma inv_timer_resume:
  assumes "inv_timer s" "create_and_destroy_namespace_interface k s = Some s'"
  shows "inv_timer s'"
proof -
  from assms(2) obtain c where c: "coros s k = Some c"
    by (auto simp: create_and_destroy_namespace_interface_def split: option.splits)
  note t = inv_timer_D[OF assms(1) c]
  note i = inv_timer_fail[OF assms(1)] inv_timer_on_interrupted[OF assms(1)]
    inv_timer_keep_alive_loop[OF assms(1)] inv_timer_erase_entry[OF assms(1)]
  show ?thesis
  proof (cases "pc c")
    case Spawned
    with t have n: "expiration_timer c = None" by (simp add: timer_ok_no_timer)
    from assms(2) c Spawned
    consider f where "s' = fail f s"
      | "s' = s\<lparr>coros := (coros s)(k \<mapsto> c\<lparr>pc := To_home_thread\<rparr>)\<rparr>"
      by (auto simp: create_and_destroy_namespace_interface_def
          resume_spawned_def split: option.splits if_splits)
    then show ?thesis
    proof cases
      case 1
      then show ?thesis using i by simp
    next
      case 2
      show ?thesis
        by (rule inv_timer_upd[OF assms(1) timer_ok_move[OF n, of To_home_thread], of _ k])
           (simp_all add: 2)
    qed
  next
    case To_home_thread
    with t have n: "expiration_timer c = None" by (simp add: timer_ok_no_timer)
    from assms(2) c To_home_thread
    have 2: "s' = s\<lparr>coros := (coros s)(k \<mapsto> c\<lparr>pc := To_own_thread\<rparr>)\<rparr>"
      by (auto simp: create_and_destroy_namespace_interface_def)
    show ?thesis
      by (rule inv_timer_upd[OF assms(1) timer_ok_move[OF n, of To_own_thread], of _ k])
         (simp_all add: 2)
  next
    case To_own_thread
    with t have n: "expiration_timer c = None" by (simp add: timer_ok_no_timer)
    from assms(2) c To_own_thread
    have 2: "s' = s\<lparr>coros := (coros s)(k \<mapsto> c\<lparr>pc := Wait_initial_ready\<rparr>)\<rparr>"
      by (auto simp: create_and_destroy_namespace_interface_def)
    show ?thesis
      by (rule inv_timer_upd[OF assms(1) timer_ok_move[OF n, of Wait_initial_ready], of _ k])
         (simp_all add: 2)
  next
    case Wait_initial_ready
    with t have "expiration_timer c = None" by (simp add: timer_ok_no_timer)
    with assms(2) c Wait_initial_ready show ?thesis
      by (auto simp: create_and_destroy_namespace_interface_def resume_wait_initial_ready_def
          split: option.splits if_splits wait_result.splits intro: i)
  next
    case Wait_ref_count_zero
    with t have "expiration_timer c = None" by (simp add: timer_ok_no_timer)
    with assms(2) c Wait_ref_count_zero show ?thesis
      by (auto simp: create_and_destroy_namespace_interface_def resume_wait_ref_count_zero_def
          split: option.splits if_splits wait_result.splits intro: i)
  next
    case Wait_expiration
    with assms(2) c show ?thesis
      by (auto simp: create_and_destroy_namespace_interface_def resume_wait_expiration_def
          split: option.splits if_splits wait_result.splits intro: i)
  next
    case Unwinding
    with assms(2) c have "s' = s\<lparr>coros := (coros s)(k := None)\<rparr>"
      by (simp add: create_and_destroy_namespace_interface_def)
    then show ?thesis using assms(1) unfolding inv_timer_def by auto
  qed
qed

lemma inv_timer_fire:
  assumes "inv_timer s" "fire ev s = Some s'"
  shows "inv_timer s'"
proof (cases ev)
  case (Get_called n)
  with assms(2) have s': "s' = get_namespace_interface_begin n s"
    by (auto simp: fire_def split: if_splits)
  show ?thesis
  proof (cases "entries s n")
    case None
    show ?thesis
      by (rule inv_timer_upd[OF assms(1), where k = "next_coro s"
            and c = "\<lparr>namespace_id = n, pc = Spawned, initial_ready = False,
                 expiration_timer = None\<rparr>"])
         (simp_all add: s' get_namespace_interface_begin_def None timer_ok_def)
  next
    case (Some e)
    then show ?thesis using assms(1) by (simp add: s' get_namespace_interface_begin_def)
  qed
next
  case (Get_returned n)
  with assms(2) have "coros s' = coros s"
    by (auto simp: fire_def get_returned_def get_namespace_interface_resume_def
        split: if_splits option.splits wait_result.splits prod.splits get_outcome.splits)
  then show ?thesis by (rule inv_timer_same[OF assms(1)])
next
  case (Handle_copied n)
  with assms(2) have "coros s' = coros s"
    by (auto simp: fire_def handle_copied_def fail_def split: if_splits option.splits prod.splits)
  then show ?thesis by (rule inv_timer_same[OF assms(1)])
next
  case (Handle_destroyed n)
  with assms(2) have "coros s' = coros s"
    by (auto simp: fire_def handle_destroyed_def fail_def split: if_splits option.splits prod.splits)
  then show ?thesis by (rule inv_timer_same[OF assms(1)])
next
  case (Initial_ready k)
  with assms(2) obtain c where c: "coros s k = Some c" "pc c = Wait_initial_ready"
    "s' = s\<lparr>coros := (coros s)(k \<mapsto> c\<lparr>initial_ready := True\<rparr>)\<rparr>"
    by (auto simp: fire_def initial_ready_pulsed_def split: option.splits if_splits)
  have "timer_ok (c\<lparr>initial_ready := True\<rparr>)"
    using inv_timer_D[OF assms(1) c(1)] by (auto simp: timer_ok_def split: option.splits)
  then show ?thesis
    by (rule inv_timer_upd[OF assms(1), where k = k]) (simp add: c)
next
  case (Timer_fired k)
  with assms(2) obtain c ms fired where c: "coros s k = Some c"
    "expiration_timer c = Some (ms, fired)"
    "s' = s\<lparr>coros := (coros s)(k \<mapsto> c\<lparr>expiration_timer := Some (ms, True)\<rparr>)\<rparr>"
    by (auto simp: fire_def timer_fired_def split: option.splits if_splits)
  have "timer_ok (c\<lparr>expiration_timer := Some (ms, True)\<rparr>)"
    using inv_timer_D[OF assms(1) c(1)] c(2) by (simp add: timer_ok_def)
  then show ?thesis
    by (rule inv_timer_upd[OF assms(1), where k = k]) (simp add: c)
next
  case Drain
  with assms(2) have "coros s' = coros s" by (auto simp: fire_def split: if_splits)
  then show ?thesis by (rule inv_timer_same[OF assms(1)])
next
  case (Resume k)
  with assms show ?thesis by (auto simp: fire_def intro: inv_timer_resume split: if_splits)
qed

lemma reachable_inv_timer: "reachable s \<Longrightarrow> inv_timer s"
  by (induction rule: reachable.induct) (auto intro: inv_timer_init inv_timer_fire)

lemma run_reachable: "reachable s \<Longrightarrow> run evs s = Some s' \<Longrightarrow> reachable s'"
proof (induction evs arbitrary: s)
  case Nil
  then show ?case by simp
next
  case (Cons ev evs)
  then obtain s1 where s1: "fire ev s = Some s1" "run evs s1 = Some s'"
    by (cases "fire ev s") simp_all
  with Cons.prems(1) have "reachable s1" by (blast intro: reachable_fire)
  with Cons.IH s1 show ?case by blast
qed

section \<open>What a single event can do\<close>

lemma last_primary_unique:
  assumes "\<forall>m m'. has_primary_entry bp m r \<longrightarrow> has_primary_entry bp m' r \<longrightarrow> m = m'"
  shows "(primaries_for r bp \<noteq> [] \<and> m = last (primaries_for r bp)) \<longleftrightarrow> has_primary_entry bp m r"
proof
  assume "primaries_for r bp \<noteq> [] \<and> m = last (primaries_for r bp)"
  then have "m \<in> set (primaries_for r bp)" by simp
  then show "has_primary_entry bp m r" by (simp add: set_primaries_for)
next
  assume h: "has_primary_entry bp m r"
  then have m: "m \<in> set (primaries_for r bp)" by (simp add: set_primaries_for)
  then have ne: "primaries_for r bp \<noteq> []" by auto
  then have "last (primaries_for r bp) \<in> set (primaries_for r bp)" by simp
  then have "has_primary_entry bp (last (primaries_for r bp)) r" by (simp add: set_primaries_for)
  with assms h have "m = last (primaries_for r bp)" by blast
  with ne show "primaries_for r bp \<noteq> [] \<and> m = last (primaries_for r bp)" by simp
qed

lemmas resume_defs =
  create_and_destroy_namespace_interface_def resume_spawned_def
  resume_wait_initial_ready_def
  resume_wait_ref_count_zero_def resume_wait_expiration_def on_interrupted_def
  wait_interruptible_def

lemma entries_keep_alive_loop:
  "entries (keep_alive_loop k c e s) n =
     (if n = namespace_id c
      then Some (if ref_count e \<noteq> 0
                 then e\<lparr>pulse_when_ref_count_becomes_zero := Some (ref_count_is_zero k)\<rparr>
                 else e\<lparr>pulse_when_ref_count_becomes_nonzero := Some (ref_count_is_nonzero k)\<rparr>)
      else entries s n)"
  by (simp add: keep_alive_loop_def)

lemma failed_keep_alive_loop [simp]: "failed (keep_alive_loop k c e s) = failed s"
  by (simp add: keep_alive_loop_def)

lemma failed_erase_entry [simp]: "failed (erase_entry k c s) = failed s"
  by (simp add: erase_entry_def)

lemma entries_erase_entry:
  "entries (erase_entry k c s) n = (if n = namespace_id c then None else entries s n)"
  by (simp add: erase_entry_def)

lemma entries_fail [simp]: "entries (fail f s) = entries s"
  by (simp add: fail_def)

lemma failed_fail [simp]: "failed (fail f s) = Some f"
  by (simp add: fail_def)

text \<open>A step that removes an entry is the erase of line 201 and finds the count at 0.\<close>

lemma resume_erases:
  assumes "create_and_destroy_namespace_interface k s = Some s'"
      "entries s n = Some e" "entries s' n = None"
  shows "ref_count e = 0 \<and> failed s' = failed s \<and>
         (\<exists>c. coros s k = Some c \<and> namespace_id c = n \<and> pc c \<noteq> Unwinding)"
proof -
  from assms(1) obtain c where c: "coros s k = Some c"
    by (auto simp: create_and_destroy_namespace_interface_def split: option.splits)
  show ?thesis
  proof (cases "pc c")
    case Spawned
    with assms c show ?thesis
      by (auto simp: resume_defs fail_def split: option.splits if_splits)
  next
    case To_home_thread
    with assms c show ?thesis by (auto simp: resume_defs)
  next
    case To_own_thread
    with assms c show ?thesis by (auto simp: resume_defs)
  next
    case Wait_initial_ready
    with assms c show ?thesis
      by (auto simp: resume_defs entries_keep_alive_loop entries_erase_entry
          split: option.splits if_splits)
  next
    case Wait_ref_count_zero
    with assms c show ?thesis
      by (auto simp: resume_defs entries_keep_alive_loop entries_erase_entry
          split: option.splits if_splits)
  next
    case Wait_expiration
    with assms c show ?thesis
      by (auto simp: resume_defs entries_keep_alive_loop entries_erase_entry
          split: option.splits if_splits)
  next
    case Unwinding
    with assms c show ?thesis by (auto simp: resume_defs)
  qed
qed

lemma fire_erases:
  assumes "fire ev s = Some s'" "entries s n = Some e" "entries s' n = None"
  shows "ref_count e = 0 \<and> failed s' = None \<and>
         (\<exists>k c. ev = Resume k \<and> coros s k = Some c \<and> namespace_id c = n \<and> pc c \<noteq> Unwinding)"
proof (cases ev)
  case (Get_called m)
  with assms show ?thesis
    by (auto simp: fire_def get_namespace_interface_begin_def split: if_splits option.splits)
next
  case (Get_returned m)
  with assms show ?thesis
    by (auto simp: fire_def get_returned_def get_namespace_interface_resume_def wait_interruptible_def
        split: if_splits option.splits prod.splits)
next
  case (Handle_copied m)
  with assms show ?thesis
    by (auto simp: fire_def handle_copied_def split: if_splits option.splits prod.splits)
next
  case (Handle_destroyed m)
  with assms show ?thesis
    by (auto simp: fire_def handle_destroyed_def split: if_splits option.splits prod.splits)
next
  case (Initial_ready k)
  with assms show ?thesis
    by (auto simp: fire_def initial_ready_pulsed_def split: if_splits option.splits)
next
  case (Timer_fired k)
  with assms show ?thesis
    by (auto simp: fire_def timer_fired_def split: if_splits option.splits)
next
  case Drain
  with assms show ?thesis by (auto simp: fire_def split: if_splits)
next
  case (Resume k)
  with assms have r: "create_and_destroy_namespace_interface k s = Some s'" and f: "failed s = None"
    by (auto simp: fire_def split: if_splits)
  from resume_erases[OF r assms(2,3)] f Resume show ?thesis by auto
qed

text \<open>The guarantee of line 197 fails only on an interruption that finds a non-zero count.\<close>

lemma resume_fails_interrupted:
  assumes "create_and_destroy_namespace_interface k s = Some s'" "failed s = None"
    "failed s' = Some Guarantee_ref_count_zero_when_interrupted"
  shows "\<exists>c e. coros s k = Some c \<and> drain_signal s \<and>
           entries s (namespace_id c) = Some e \<and> ref_count e \<noteq> 0"
proof -
  from assms(1) obtain c where c: "coros s k = Some c"
    by (auto simp: create_and_destroy_namespace_interface_def split: option.splits)
  show ?thesis
  proof (cases "pc c")
    case Spawned
    with assms c show ?thesis
      by (auto simp: resume_defs fail_def split: option.splits if_splits)
  next
    case To_home_thread
    with assms c show ?thesis by (auto simp: resume_defs)
  next
    case To_own_thread
    with assms c show ?thesis by (auto simp: resume_defs)
  next
    case Wait_initial_ready
    with assms c show ?thesis
      by (auto simp: resume_defs split: option.splits if_splits)
  next
    case Wait_ref_count_zero
    with assms c show ?thesis
      by (auto simp: resume_defs split: option.splits if_splits)
  next
    case Wait_expiration
    with assms c show ?thesis
      by (auto simp: resume_defs split: option.splits if_splits)
  next
    case Unwinding
    with assms c show ?thesis by (auto simp: resume_defs)
  qed
qed

lemma fire_fails_interrupted:
  assumes "fire ev s = Some s'"
    "failed s' = Some Guarantee_ref_count_zero_when_interrupted"
  shows "\<exists>k c e. ev = Resume k \<and> coros s k = Some c \<and> drain_signal s \<and>
           entries s (namespace_id c) = Some e \<and> ref_count e \<noteq> 0"
proof (cases ev)
  case (Get_called m)
  with assms show ?thesis
    by (auto simp: fire_def get_namespace_interface_begin_def split: if_splits option.splits)
next
  case (Get_returned m)
  with assms show ?thesis
    by (auto simp: fire_def get_returned_def get_namespace_interface_resume_def wait_interruptible_def
        split: if_splits option.splits prod.splits)
next
  case (Handle_copied m)
  with assms show ?thesis
    by (auto simp: fire_def handle_copied_def fail_def split: if_splits option.splits prod.splits)
next
  case (Handle_destroyed m)
  with assms show ?thesis
    by (auto simp: fire_def handle_destroyed_def fail_def split: if_splits option.splits prod.splits)
next
  case (Initial_ready k)
  with assms show ?thesis
    by (auto simp: fire_def initial_ready_pulsed_def split: if_splits option.splits)
next
  case (Timer_fired k)
  with assms show ?thesis
    by (auto simp: fire_def timer_fired_def split: if_splits option.splits)
next
  case Drain
  with assms show ?thesis by (auto simp: fire_def split: if_splits)
next
  case (Resume k)
  with assms have r: "create_and_destroy_namespace_interface k s = Some s'" and f: "failed s = None"
    by (auto simp: fire_def split: if_splits)
  from resume_fails_interrupted[OF r f assms(2)] Resume show ?thesis by auto
qed

lemmas run_defs =
  fire_def init_repo_def get_namespace_interface_begin_def
  create_and_destroy_namespace_interface_def resume_spawned_def
  resume_wait_initial_ready_def resume_wait_ref_count_zero_def resume_wait_expiration_def
  keep_alive_loop_def on_interrupted_def erase_entry_def wait_interruptible_def
  initial_ready_pulsed_def timer_fired_def get_returned_def get_namespace_interface_resume_def
  handle_copied_def handle_destroyed_def add_ref_def release_def fail_def
  pulse_if_not_already_pulsed_def NAMESPACE_INTERFACE_EXPIRATION_MS_def

text \<open>A step that changes the promise of an entry is line 166, run by a coroutine of that table.\<close>

lemma resume_pulses_slot:
  assumes "create_and_destroy_namespace_interface k s = Some s'"
      "entries s n = Some e" "entries s' n = Some e'"
    "namespace_interface e' \<noteq> namespace_interface e"
  shows "namespace_interface e = None \<and> namespace_interface e' = Some k \<and>
         (\<exists>c. coros s k = Some c \<and> namespace_id c = n \<and> pc c = Wait_initial_ready)"
proof -
  from assms(1) obtain c where c: "coros s k = Some c"
    by (auto simp: create_and_destroy_namespace_interface_def split: option.splits)
  show ?thesis
  proof (cases "pc c")
    case Spawned
    with assms c show ?thesis
      by (auto simp: resume_defs fail_def split: option.splits if_splits)
  next
    case To_home_thread
    with assms c show ?thesis by (auto simp: resume_defs)
  next
    case To_own_thread
    with assms c show ?thesis by (auto simp: resume_defs)
  next
    case Wait_initial_ready
    with assms c show ?thesis
      by (auto simp: resume_defs entries_keep_alive_loop entries_erase_entry
          split: option.splits if_splits)
  next
    case Wait_ref_count_zero
    with assms c show ?thesis
      by (auto simp: resume_defs entries_keep_alive_loop entries_erase_entry
          split: option.splits if_splits)
  next
    case Wait_expiration
    with assms c show ?thesis
      by (auto simp: resume_defs entries_keep_alive_loop entries_erase_entry
          split: option.splits if_splits)
  next
    case Unwinding
    with assms c show ?thesis by (auto simp: resume_defs)
  qed
qed

lemma fire_pulses_slot:
  assumes "fire ev s = Some s'" "entries s n = Some e" "entries s' n = Some e'"
    "namespace_interface e' \<noteq> namespace_interface e"
  shows "namespace_interface e = None \<and>
         (\<exists>k c. ev = Resume k \<and> namespace_interface e' = Some k \<and> coros s k = Some c \<and>
                namespace_id c = n \<and> pc c = Wait_initial_ready)"
proof (cases ev)
  case (Get_called m)
  with assms show ?thesis
    by (auto simp: fire_def get_namespace_interface_begin_def split: if_splits option.splits)
next
  case (Get_returned m)
  with assms show ?thesis
    by (auto simp: fire_def get_returned_def get_namespace_interface_resume_def wait_interruptible_def
        add_ref_def Let_def split: if_splits option.splits prod.splits)
next
  case (Handle_copied m)
  with assms show ?thesis
    by (auto simp: fire_def handle_copied_def fail_def add_ref_def Let_def
        split: if_splits option.splits prod.splits)
next
  case (Handle_destroyed m)
  with assms show ?thesis
    by (auto simp: fire_def handle_destroyed_def fail_def release_def Let_def
        split: if_splits option.splits prod.splits)
next
  case (Initial_ready k)
  with assms show ?thesis
    by (auto simp: fire_def initial_ready_pulsed_def split: if_splits option.splits)
next
  case (Timer_fired k)
  with assms show ?thesis
    by (auto simp: fire_def timer_fired_def split: if_splits option.splits)
next
  case Drain
  with assms show ?thesis by (auto simp: fire_def split: if_splits)
next
  case (Resume k)
  with assms have r: "create_and_destroy_namespace_interface k s = Some s'"
    by (auto simp: fire_def split: if_splits)
  from resume_pulses_slot[OF r assms(2,3,4)] Resume show ?thesis by auto
qed

lemma conds_keep_alive_loop:
  "conds (keep_alive_loop k c e s) a =
     (if ref_count e \<noteq> 0 \<and> a = ref_count_is_zero k then False
      else if ref_count e = 0 \<and> a = ref_count_is_nonzero k then False
      else conds s a)"
  by (simp add: keep_alive_loop_def)

lemma conds_erase_entry [simp]: "conds (erase_entry k c s) = conds s"
  by (simp add: erase_entry_def)

lemma conds_fail [simp]: "conds (fail f s) = conds s"
  by (simp add: fail_def)

text \<open>Only coroutine \<open>k\<close> resets its own \<open>ref_count_is_nonzero\<close>.\<close>

lemma resume_keeps_nonzero_pulsed:
  assumes "create_and_destroy_namespace_interface k' s = Some s'"
      "k' \<noteq> k" "conds s (ref_count_is_nonzero k)"
  shows "conds s' (ref_count_is_nonzero k)"
proof -
  from assms(1) obtain c where c: "coros s k' = Some c"
    by (auto simp: create_and_destroy_namespace_interface_def split: option.splits)
  show ?thesis
  proof (cases "pc c")
    case Spawned
    with assms c show ?thesis
      by (auto simp: resume_defs split: option.splits if_splits)
  next
    case To_home_thread
    with assms c show ?thesis by (auto simp: resume_defs)
  next
    case To_own_thread
    with assms c show ?thesis by (auto simp: resume_defs)
  next
    case Wait_initial_ready
    with assms c show ?thesis
      by (auto simp: resume_defs conds_keep_alive_loop split: option.splits if_splits)
  next
    case Wait_ref_count_zero
    with assms c show ?thesis
      by (auto simp: resume_defs conds_keep_alive_loop split: option.splits if_splits)
  next
    case Wait_expiration
    with assms c show ?thesis
      by (auto simp: resume_defs conds_keep_alive_loop split: option.splits if_splits)
  next
    case Unwinding
    with assms c show ?thesis by (auto simp: resume_defs)
  qed
qed

lemma fire_keeps_nonzero_pulsed:
  assumes "fire ev s = Some s'" "ev \<noteq> Resume k" "conds s (ref_count_is_nonzero k)"
  shows "conds s' (ref_count_is_nonzero k)"
proof (cases ev)
  case (Get_called m)
  with assms show ?thesis
    by (auto simp: fire_def get_namespace_interface_begin_def split: if_splits option.splits)
next
  case (Get_returned m)
  with assms show ?thesis
    by (auto simp: fire_def get_returned_def get_namespace_interface_resume_def
        wait_interruptible_def add_ref_def Let_def pulse_if_not_already_pulsed_def
        split: if_splits option.splits prod.splits)
next
  case (Handle_copied m)
  with assms show ?thesis
    by (auto simp: fire_def handle_copied_def add_ref_def Let_def
        pulse_if_not_already_pulsed_def split: if_splits option.splits prod.splits)
next
  case (Handle_destroyed m)
  with assms show ?thesis
    by (auto simp: fire_def handle_destroyed_def release_def Let_def
        pulse_if_not_already_pulsed_def split: if_splits option.splits prod.splits)
next
  case (Initial_ready k)
  with assms show ?thesis
    by (auto simp: fire_def initial_ready_pulsed_def split: if_splits option.splits)
next
  case (Timer_fired k)
  with assms show ?thesis
    by (auto simp: fire_def timer_fired_def split: if_splits option.splits)
next
  case Drain
  with assms show ?thesis by (auto simp: fire_def split: if_splits)
next
  case (Resume k')
  with assms have r: "create_and_destroy_namespace_interface k' s = Some s'" "k' \<noteq> k"
    by (auto simp: fire_def split: if_splits)
  from resume_keeps_nonzero_pulsed[OF r assms(3)] show ?thesis .
qed

text \<open>An interrupted coroutine fails the guarantee of line 197 exactly when a handle is live.\<close>

lemma interrupted_fails_iff:
  assumes "inv s" "failed s = None" "coros s k = Some c" "drain_signal s"
    "pc c = Wait_initial_ready \<or> pc c = Wait_ref_count_zero \<or> pc c = Wait_expiration"
    "create_and_destroy_namespace_interface k s = Some s'"
  shows "failed s' = Some Guarantee_ref_count_zero_when_interrupted \<longleftrightarrow>
         0 < handles s (namespace_id c)"
proof -
  have ic: "inv_coros s" and ir: "inv_refs s" using assms(1) by (simp_all add: inv_def)
  from assms(5) have act: "pc c \<noteq> Unwinding" by auto
  from inv_coros_entry[OF ic assms(3) act] obtain e where
    e: "entries s (namespace_id c) = Some e" by blast
  have rc: "ref_count e \<noteq> 0 \<longleftrightarrow> 0 < handles s (namespace_id c)"
    using inv_refs_count[OF ir e] by simp
  from assms(3-6) e obtain e' where e': "ref_count e' = ref_count e"
    "s' = on_interrupted k c e' s"
    by (auto simp: resume_defs)
  show ?thesis
    unfolding e'(2) using e'(1) rc assms(2) by (simp add: on_interrupted_def)
qed

section \<open>Callers that keep their obligation\<close>

lemma reachable_obliged_reachable: "reachable_obliged s \<Longrightarrow> reachable s"
  by (induction rule: reachable_obliged.induct) (auto intro: reachable.intros)

lemma run_obliged_reachable:
  "reachable_obliged s \<Longrightarrow> run_obliged evs s = Some s' \<Longrightarrow> reachable_obliged s'"
proof (induction evs arbitrary: s)
  case Nil
  then show ?case by simp
next
  case (Cons ev evs)
  from Cons.prems(2) obtain s1 where s1: "caller_obligation ev s" "fire ev s = Some s1"
      "run_obliged evs s1 = Some s'"
    by (auto split: if_splits option.splits)
  from reachable_obliged_fire[OF Cons.prems(1) s1(1,2)] have "reachable_obliged s1" .
  from Cons.IH[OF this s1(3)] show ?case .
qed

text \<open>A lifecycle coroutine neither makes nor drops a handle, and does not drain the cache.\<close>

lemma resume_handles:
  assumes "create_and_destroy_namespace_interface k s = Some s'"
  shows "handles s' = handles s \<and> drain_signal s' = drain_signal s"
proof -
  from assms(1) obtain c where c: "coros s k = Some c"
    by (auto simp: create_and_destroy_namespace_interface_def split: option.splits)
  show ?thesis
  proof (cases "pc c")
    case Spawned
    with assms c show ?thesis
      by (auto simp: resume_defs fail_def split: option.splits if_splits)
  next
    case To_home_thread
    with assms c show ?thesis by (auto simp: resume_defs)
  next
    case To_own_thread
    with assms c show ?thesis by (auto simp: resume_defs)
  next
    case Wait_initial_ready
    with assms c show ?thesis
      by (auto simp: resume_defs keep_alive_loop_def erase_entry_def fail_def
          split: option.splits if_splits)
  next
    case Wait_ref_count_zero
    with assms c show ?thesis
      by (auto simp: resume_defs keep_alive_loop_def erase_entry_def fail_def
          split: option.splits if_splits)
  next
    case Wait_expiration
    with assms c show ?thesis
      by (auto simp: resume_defs keep_alive_loop_def erase_entry_def fail_def
          split: option.splits if_splits)
  next
    case Unwinding
    with assms c show ?thesis by (auto simp: resume_defs)
  qed
qed

text \<open>Once the cache is drained, no handle is live.\<close>

lemma fire_no_handle_after_drain:
  assumes "drain_signal s \<longrightarrow> (\<forall>n. handles s n = 0)" "caller_obligation ev s"
    "fire ev s = Some s'"
  shows "drain_signal s' \<longrightarrow> (\<forall>n. handles s' n = 0)"
proof (cases ev)
  case (Get_called m)
  with assms show ?thesis
    by (auto simp: fire_def get_namespace_interface_begin_def split: if_splits option.splits)
next
  case (Get_returned m)
  with assms show ?thesis
    by (auto simp: fire_def caller_obligation_def get_returned_def
        get_namespace_interface_resume_def wait_interruptible_def
        split: if_splits option.splits prod.splits)
next
  case (Handle_copied m)
  with assms show ?thesis
    by (auto simp: fire_def handle_copied_def fail_def split: if_splits option.splits prod.splits)
next
  case (Handle_destroyed m)
  with assms show ?thesis
    by (auto simp: fire_def handle_destroyed_def fail_def split: if_splits option.splits prod.splits)
next
  case (Initial_ready k)
  with assms show ?thesis
    by (auto simp: fire_def initial_ready_pulsed_def split: if_splits option.splits)
next
  case (Timer_fired k)
  with assms show ?thesis
    by (auto simp: fire_def timer_fired_def split: if_splits option.splits)
next
  case Drain
  with assms show ?thesis by (auto simp: fire_def caller_obligation_def split: if_splits)
next
  case (Resume k)
  with assms have r: "create_and_destroy_namespace_interface k s = Some s'"
    by (auto simp: fire_def split: if_splits)
  from resume_handles[OF r] assms(1) show ?thesis by simp
qed

lemma reachable_obliged_no_handle_after_drain:
  "reachable_obliged s \<Longrightarrow> drain_signal s \<longrightarrow> (\<forall>n. handles s n = 0)"
proof (induction rule: reachable_obliged.induct)
  case reachable_obliged_init
  show ?case by (simp add: init_repo_def)
next
  case (reachable_obliged_fire s ev s')
  from fire_no_handle_after_drain[OF reachable_obliged_fire.IH reachable_obliged_fire.hyps(2,3)]
  show ?case .
qed

text \<open>
  An interrupted coroutine whose table has no live handle passes the guarantee of line 197 and
  erases its entry.
\<close>

lemma interrupted_erases:
  assumes "inv s" "failed s = None" "coros s k = Some c" "drain_signal s"
    "pc c = Wait_initial_ready \<or> pc c = Wait_ref_count_zero \<or> pc c = Wait_expiration"
    "create_and_destroy_namespace_interface k s = Some s'" "handles s (namespace_id c) = 0"
  shows "s' = erase_entry k c s"
proof -
  have ic: "inv_coros s" and ir: "inv_refs s" using assms(1) by (simp_all add: inv_def)
  from assms(5) have act: "pc c \<noteq> Unwinding" by auto
  from inv_coros_entry[OF ic assms(3) act] obtain e where
    e: "entries s (namespace_id c) = Some e" by blast
  have rc: "ref_count e = 0"
    using inv_refs_count[OF ir e] assms(7) by simp
  from assms(3-6) e obtain e' where e': "ref_count e' = ref_count e"
    "s' = on_interrupted k c e' s"
    by (auto simp: resume_defs)
  show ?thesis
    unfolding e'(2) using e'(1) rc by (simp add: on_interrupted_def)
qed

text \<open>
  A coroutine that is resumed from the wait of line 184 with \<open>ref_count_is_nonzero\<close> not
  pulsed passes the guarantee of line 186 and erases its entry.
\<close>

lemma expired_erases:
  assumes "inv s" "coros s k = Some c" "\<not> drain_signal s" "pc c = Wait_expiration"
    "\<not> conds s (ref_count_is_nonzero k)"
    "create_and_destroy_namespace_interface k s = Some s'"
  shows "s' = erase_entry k c s"
proof -
  have ir: "inv_refs s" using assms(1) by (simp add: inv_def)
  from inv_refs_expiration[OF ir assms(2,4,5)] obtain e where
    e: "entries s (namespace_id c) = Some e" "ref_count e = 0" by blast
  with assms(2-6) show ?thesis
    by (auto simp: resume_defs split: if_splits)
qed

text \<open>
  The obligation is what makes the guarantee of line 197 hold: when the cache is drained while
  a handle is live, the coroutine is interrupted in the wait of line 175 and the guarantee
  fails.
\<close>

lemma drain_with_live_handle_fails:
  "reachable (the (run example_drain_with_handle init_repo)) \<and>
   run_obliged example_drain_with_handle init_repo = None \<and>
   failed (the (run example_drain_with_handle init_repo)) =
     Some Guarantee_ref_count_zero_when_interrupted"
proof -
  define s where "s = the (run example_drain_with_handle init_repo)"
  have r: "run example_drain_with_handle init_repo = Some s"
    unfolding s_def by (simp add: example_drain_with_handle_def run_defs)
  have "reachable s" using run_reachable[OF reachable_init r] .
  moreover have "failed s = Some Guarantee_ref_count_zero_when_interrupted"
    unfolding s_def by (simp add: example_drain_with_handle_def run_defs)
  moreover have "run_obliged example_drain_with_handle init_repo = None"
    by (simp add: example_drain_with_handle_def caller_obligation_def run_defs)
  ultimately show ?thesis unfolding s_def by simp
qed

section \<open>The claims\<close>

text \<open>
  Claim C1. For a table of the snapshot that is not deleted and whose blueprint is in conflict,
  the rebuilt projection (and so the projection of every thread after the change) holds for
  that table exactly what the projection of the current thread held before: the same mapping
  when there was one, no entry when there was none. The contents of a conflicted blueprint are
  never read: replacing them by anything leaves the rebuilt projection the same.
\<close>

theorem conflicted_table_keeps_prior_mapping:
  assumes "(n, d) \<in> set ns" "distinct (map fst ns)" "\<not> is_deleted d"
    "in_conflict (blueprint (deletable_ref d))" "thread < num_threads"
  shows "new_reg_to_pri_maps (maps cur) ns n = maps cur n \<and>
         on_namespaces_change cur num_threads ns maps thread n = maps cur n \<and>
         (\<forall>bp0. new_reg_to_pri_maps (maps cur) (map (forget_conflicted bp0) ns)
                  = new_reg_to_pri_maps (maps cur) ns)"
  using assms
  by (simp add: on_namespaces_change_thread new_reg_to_pri_maps_def namespaces_loop_conflict
      namespaces_loop_forget)

theorem conflicted_table_keeps_prior_mapping_witness:
  "(1, hd (map snd example_conflicted)) \<in> set example_conflicted \<and>
   distinct (map fst example_conflicted) \<and>
   on_namespaces_change 0 2 example_conflicted example_prior 1 1 = Some [example_range \<mapsto> 4]"
  using conflicted_table_keeps_prior_mapping[of 1 "hd (map snd example_conflicted)"
      example_conflicted 1 2 example_prior 0]
  by (simp add: example_conflicted_def example_prior_def)

text \<open>
  Claim C2, as stated, fails: two machines are primary for two hash regions with the same inner
  key range; the blueprint has a primary entry for machine 1 and that range, and the projection
  does not map the range to machine 1.
\<close>

theorem split_primaries_counterexample:
  "has_primary_entry example_split_blueprint 1 example_range \<and>
   primary_of (new_reg_to_pri_maps Map.empty example_split) 5 example_range \<noteq> Some 1"
  by (simp add: has_primary_entry_def new_reg_to_pri_maps_def example_split_def
      example_split_blueprint_def primary_of_def assign_primary_def)

text \<open>
  Claim C2, amended. The rebuilt projection has no entry for a deleted table. For a table that
  is not deleted and whose blueprint is not in conflict, it maps a key range to a machine if and
  only if that machine is the last one, in the iteration order of the blueprint, with a primary
  role over a region whose inner key range is that range; so when no key range has two
  different primary machines, it maps a range to a machine if and only if the blueprint has a
  primary entry for that machine and that inner range.
\<close>

theorem projection_of_snapshot:
  assumes "(n, d) \<in> set ns" "distinct (map fst ns)"
  shows "(is_deleted d \<longrightarrow> new_reg_to_pri_maps old ns n = None) \<and>
         (\<not> is_deleted d \<and> \<not> in_conflict (blueprint (deletable_ref d)) \<longrightarrow>
            (\<forall>r m. primary_of (new_reg_to_pri_maps old ns) n r = Some m \<longleftrightarrow>
                primaries_for r (table_blueprint d) \<noteq> [] \<and>
                m = last (primaries_for r (table_blueprint d))) \<and>
            (\<forall>r. (\<forall>m m'. has_primary_entry (table_blueprint d) m r \<longrightarrow>
                         has_primary_entry (table_blueprint d) m' r \<longrightarrow> m = m') \<longrightarrow>
                 (\<forall>m. primary_of (new_reg_to_pri_maps old ns) n r = Some m \<longleftrightarrow>
                      has_primary_entry (table_blueprint d) m r)))"
proof -
  let ?new = "new_reg_to_pri_maps old ns"
  let ?bp = "table_blueprint d"
  have del: "is_deleted d \<longrightarrow> ?new n = None"
    unfolding new_reg_to_pri_maps_def using namespaces_loop_deleted[OF assms(1,2)] by simp
  have char: "primary_of ?new n r = Some m \<longleftrightarrow>
                primaries_for r ?bp \<noteq> [] \<and> m = last (primaries_for r ?bp)"
    if "\<not> is_deleted d" "\<not> in_conflict (blueprint (deletable_ref d))" for r m
    unfolding new_reg_to_pri_maps_def table_blueprint_def
    using namespaces_loop_blueprint[OF assms(1,2) that, of Map.empty old r]
    by (auto simp: Let_def)
  have uniq: "primary_of ?new n r = Some m \<longleftrightarrow> has_primary_entry ?bp m r"
    if "\<not> is_deleted d" "\<not> in_conflict (blueprint (deletable_ref d))"
      "\<forall>m m'. has_primary_entry ?bp m r \<longrightarrow> has_primary_entry ?bp m' r \<longrightarrow> m = m'" for r m
    using char[OF that(1,2)] last_primary_unique[OF that(3)] by simp
  show ?thesis
  proof (intro conjI impI allI)
    show "?new n = None" if "is_deleted d" using del that by simp
  qed (use char uniq in blast)+
qed

theorem projection_of_snapshot_witness:
  "(5, hd (map snd example_split)) \<in> set example_split \<and>
   distinct (map fst example_split) \<and>
   primary_of (new_reg_to_pri_maps Map.empty example_split) 5 example_range = Some 2 \<and>
   new_reg_to_pri_maps Map.empty example_split 6 = None"
proof -
  let ?d = "hd (map snd example_split)"
  have h: "(5, ?d) \<in> set example_split" "distinct (map fst example_split)"
    "\<not> is_deleted ?d" "\<not> in_conflict (blueprint (deletable_ref ?d))"
    by (simp_all add: example_split_def)
  from projection_of_snapshot[OF h(1,2), of Map.empty] h(3,4)
  have "primary_of (new_reg_to_pri_maps Map.empty example_split) 5 example_range = Some 2
        \<longleftrightarrow> primaries_for example_range (table_blueprint ?d) \<noteq> [] \<and>
            2 = last (primaries_for example_range (table_blueprint ?d))"
    by blast
  then have 5: "primary_of (new_reg_to_pri_maps Map.empty example_split) 5 example_range = Some 2"
    by (simp add: example_split_def example_split_blueprint_def table_blueprint_def)
  have "(6, deleted) \<in> set example_split" by (simp add: example_split_def)
  from projection_of_snapshot[OF this h(2), of Map.empty]
  have "new_reg_to_pri_maps Map.empty example_split 6 = None" by simp
  with 5 h show ?thesis by simp
qed

text \<open>
  Claim C3. The timer is started with 60000 ms, and a coroutine that waits at line 184 has such
  a timer. Resumed there, it takes the catch block when the drain signal is pulsed; otherwise it
  goes round the loop again when \<open>ref_count_is_nonzero\<close> is pulsed; otherwise it breaks out
  and erases its entry, which it can do only once the timer has fired. While the trigger is not
  pulsed the count is 0, and the handle that takes it from 0 to 1 pulses the trigger, which then
  stays pulsed until the coroutine runs. Every round of the loop that finds the count at 0
  starts a fresh, unfired timer of 60000 ms and a fresh trigger, and one that finds it non-zero
  waits at line 175, from where it goes round the loop again once the count has reached 0.
\<close>

theorem expiration_wait:
  assumes "reachable s" "coros s k = Some c" "pc c = Wait_expiration"
  shows "NAMESPACE_INTERFACE_EXPIRATION_MS = 60000 \<and>
    (\<exists>fired. expiration_timer c = Some (60000, fired)) \<and>
    (\<exists>e. entries s (namespace_id c) = Some e \<and>
       create_and_destroy_namespace_interface k s =
         (if drain_signal s then
            Some (on_interrupted k c (e\<lparr>pulse_when_ref_count_becomes_nonzero := None\<rparr>) s)
          else if conds s (ref_count_is_nonzero k) then
            Some (keep_alive_loop k (c\<lparr>expiration_timer := None\<rparr>)
                    (e\<lparr>pulse_when_ref_count_becomes_nonzero := None\<rparr>) s)
          else if expiration_timer c = Some (60000, True) then Some (erase_entry k c s)
          else None) \<and>
       (\<not> conds s (ref_count_is_nonzero k) \<longrightarrow>
          ref_count e = 0 \<and>
          (\<forall>s2. get_returned (namespace_id c) s = Some s2 \<longrightarrow>
                conds s2 (ref_count_is_nonzero k)))) \<and>
    (\<forall>ev s'. fire ev s = Some s' \<longrightarrow> ev \<noteq> Resume k \<longrightarrow> conds s (ref_count_is_nonzero k) \<longrightarrow>
       conds s' (ref_count_is_nonzero k)) \<and>
    (\<forall>k0 c0 e0 s0.
       coros (keep_alive_loop k0 c0 e0 s0) k0 =
         Some (if ref_count e0 = 0
               then c0\<lparr>pc := Wait_expiration, expiration_timer := Some (60000, False)\<rparr>
               else c0\<lparr>pc := Wait_ref_count_zero\<rparr>) \<and>
       (ref_count e0 = 0 \<longrightarrow>
          \<not> conds (keep_alive_loop k0 c0 e0 s0) (ref_count_is_nonzero k0)) \<and>
       entries (keep_alive_loop k0 c0 e0 s0) (namespace_id c0) \<noteq> None) \<and>
    (\<forall>k0 c0 e0 s0. coros s0 k0 = Some c0 \<longrightarrow> pc c0 = Wait_ref_count_zero \<longrightarrow>
       entries s0 (namespace_id c0) = Some e0 \<longrightarrow>
       create_and_destroy_namespace_interface k0 s0 =
         (if drain_signal s0 then
            Some (on_interrupted k0 c0 (e0\<lparr>pulse_when_ref_count_becomes_zero := None\<rparr>) s0)
          else if conds s0 (ref_count_is_zero k0) then
            Some (keep_alive_loop k0 c0 (e0\<lparr>pulse_when_ref_count_becomes_zero := None\<rparr>) s0)
          else None))"
proof -
  have i: "inv s" using assms(1) by (rule reachable_inv)
  have ic: "inv_coros s" and ir: "inv_refs s" using i by (simp_all add: inv_def)
  have it: "timer_ok c" using inv_timer_D[OF reachable_inv_timer[OF assms(1)] assms(2)] .
  have ms: "NAMESPACE_INTERFACE_EXPIRATION_MS = 60000"
    by (simp add: NAMESPACE_INTERFACE_EXPIRATION_MS_def)
  from it assms(3) ms obtain fired where t: "expiration_timer c = Some (60000, fired)"
    by (auto simp: timer_ok_def split: option.splits)
  from inv_coros_entry[OF ic assms(2)] assms(3) obtain e where
    e: "entries s (namespace_id c) = Some e" by auto
  have z: "ref_count e = 0 \<and>
           pulse_when_ref_count_becomes_nonzero e = Some (ref_count_is_nonzero k)"
    if "\<not> conds s (ref_count_is_nonzero k)"
    using inv_refs_expiration[OF ir assms(2,3) that] e by auto
  have A: "create_and_destroy_namespace_interface k s =
         (if drain_signal s then
            Some (on_interrupted k c (e\<lparr>pulse_when_ref_count_becomes_nonzero := None\<rparr>) s)
          else if conds s (ref_count_is_nonzero k) then
            Some (keep_alive_loop k (c\<lparr>expiration_timer := None\<rparr>)
                    (e\<lparr>pulse_when_ref_count_becomes_nonzero := None\<rparr>) s)
          else if expiration_timer c = Some (60000, True) then Some (erase_entry k c s)
          else None)"
    using assms(2,3) e t z by (auto simp: resume_defs)
  have C: "conds s2 (ref_count_is_nonzero k)"
    if "\<not> conds s (ref_count_is_nonzero k)" "get_returned (namespace_id c) s = Some s2" for s2
    using that(2) e z[OF that(1)]
    by (auto simp: get_returned_def get_namespace_interface_resume_def wait_interruptible_def
        add_ref_def Let_def pulse_if_not_already_pulsed_def split: if_splits)
  have D: "\<forall>ev s'. fire ev s = Some s' \<longrightarrow> ev \<noteq> Resume k \<longrightarrow>
       conds s (ref_count_is_nonzero k) \<longrightarrow> conds s' (ref_count_is_nonzero k)"
    using fire_keeps_nonzero_pulsed by blast
  have E: "\<forall>k0 c0 e0 s0.
       coros (keep_alive_loop k0 c0 e0 s0) k0 =
         Some (if ref_count e0 = 0
               then c0\<lparr>pc := Wait_expiration, expiration_timer := Some (60000, False)\<rparr>
               else c0\<lparr>pc := Wait_ref_count_zero\<rparr>) \<and>
       (ref_count e0 = 0 \<longrightarrow>
          \<not> conds (keep_alive_loop k0 c0 e0 s0) (ref_count_is_nonzero k0)) \<and>
       entries (keep_alive_loop k0 c0 e0 s0) (namespace_id c0) \<noteq> None"
    by (simp add: keep_alive_loop_def ms)
  have F: "\<forall>k0 c0 e0 s0. coros s0 k0 = Some c0 \<longrightarrow> pc c0 = Wait_ref_count_zero \<longrightarrow>
       entries s0 (namespace_id c0) = Some e0 \<longrightarrow>
       create_and_destroy_namespace_interface k0 s0 =
         (if drain_signal s0 then
            Some (on_interrupted k0 c0 (e0\<lparr>pulse_when_ref_count_becomes_zero := None\<rparr>) s0)
          else if conds s0 (ref_count_is_zero k0) then
            Some (keep_alive_loop k0 c0 (e0\<lparr>pulse_when_ref_count_becomes_zero := None\<rparr>) s0)
          else None)"
    by (simp add: resume_defs)
  have G: "\<exists>e. entries s (namespace_id c) = Some e \<and>
       create_and_destroy_namespace_interface k s =
         (if drain_signal s then
            Some (on_interrupted k c (e\<lparr>pulse_when_ref_count_becomes_nonzero := None\<rparr>) s)
          else if conds s (ref_count_is_nonzero k) then
            Some (keep_alive_loop k (c\<lparr>expiration_timer := None\<rparr>)
                    (e\<lparr>pulse_when_ref_count_becomes_nonzero := None\<rparr>) s)
          else if expiration_timer c = Some (60000, True) then Some (erase_entry k c s)
          else None) \<and>
       (\<not> conds s (ref_count_is_nonzero k) \<longrightarrow>
          ref_count e = 0 \<and>
          (\<forall>s2. get_returned (namespace_id c) s = Some s2 \<longrightarrow>
                conds s2 (ref_count_is_nonzero k)))"
    using e A C z by (intro exI[of _ e]) blast
  from ms t G D E F show ?thesis by blast
qed

theorem expiration_wait_witness:
  "reachable (the (run example_waiting init_repo)) \<and>
   map_option pc (coros (the (run example_waiting init_repo)) 0) = Some Wait_expiration \<and>
   map_option expiration_timer (coros (the (run example_waiting init_repo)) 0)
     = Some (Some (60000, False))"
proof -
  define s where "s = the (run example_waiting init_repo)"
  define c where "c = the (coros s 0)"
  have r: "run example_waiting init_repo = Some s"
    unfolding s_def by (simp add: example_waiting_def run_defs)
  have reach: "reachable s" using run_reachable[OF reachable_init r] .
  have c: "coros s 0 = Some c" "pc c = Wait_expiration"
    "expiration_timer c \<noteq> Some (60000, True)"
    unfolding c_def s_def by (simp_all add: example_waiting_def run_defs)
  from expiration_wait[OF reach c(1,2)] c(3)
  have "expiration_timer c = Some (60000, False)" by auto
  with reach c show ?thesis unfolding s_def[symmetric] by simp
qed

text \<open>
  Claim C4. When the caller of \<open>get_namespace_interface\<close> is resumed with its interruptor
  pulsed, the call ends with the interruption and leaves the whole state as it is, so the entry
  stays in the map with the count it has. The first part of the call leaves an entry that was
  there untouched, and creates one with count 0 otherwise; no \<open>add_ref\<close> is performed.
\<close>

theorem interrupted_get_leaves_entry:
  assumes "entries s1 ns_id = Some e1"
  shows "get_namespace_interface_resume ns_id True s1 = (Get_interrupted, s1) \<and>
         entries (get_namespace_interface_begin ns_id s) ns_id =
           Some (case entries s ns_id of
                   Some e \<Rightarrow> e
                 | None \<Rightarrow> \<lparr>namespace_interface = None, ref_count = 0,
                             pulse_when_ref_count_becomes_zero = None,
                             pulse_when_ref_count_becomes_nonzero = None\<rparr>) \<and>
         get_namespace_interface_resume ns_id True (get_namespace_interface_begin ns_id s) =
           (Get_interrupted, get_namespace_interface_begin ns_id s)"
  using assms
  by (auto simp: get_namespace_interface_resume_def wait_interruptible_def get_namespace_interface_begin_def
      split: option.splits)

theorem interrupted_get_leaves_entry_witness:
  "entries (get_namespace_interface_begin 3 init_repo) 3 \<noteq> None \<and>
   get_namespace_interface_resume 3 True (get_namespace_interface_begin 3 init_repo) =
     (Get_interrupted, get_namespace_interface_begin 3 init_repo)"
  using interrupted_get_leaves_entry[of "get_namespace_interface_begin 3 init_repo" 3
      "the (entries (get_namespace_interface_begin 3 init_repo) 3)" init_repo]
  by (simp add: get_namespace_interface_begin_def init_repo_def)

text \<open>
  Claim C5, as stated, fails: after an idle expiry the coroutine has erased its entry and is
  still unwinding when the table is asked for again, so a second coroutine of the same table is
  spawned beside it.
\<close>

theorem two_lifecycle_coroutines_counterexample:
  "reachable (the (run example_expiry_then_get init_repo)) \<and>
   failed (the (run example_expiry_then_get init_repo)) = None \<and>
   map_option namespace_id (coros (the (run example_expiry_then_get init_repo)) 0) = Some 1 \<and>
   map_option namespace_id (coros (the (run example_expiry_then_get init_repo)) 1) = Some 1"
proof -
  define s where "s = the (run example_expiry_then_get init_repo)"
  have r: "run example_expiry_then_get init_repo = Some s"
    unfolding s_def by (simp add: example_expiry_then_get_def run_defs)
  have "reachable s" using run_reachable[OF reachable_init r] .
  moreover have "failed s = None" "map_option namespace_id (coros s 0) = Some 1"
    "map_option namespace_id (coros s 1) = Some 1"
    unfolding s_def by (simp_all add: example_expiry_then_get_def run_defs)
  ultimately show ?thesis unfolding s_def by simp
qed

text \<open>
  Claim C5, amended. \<open>get_namespace_interface\<close> spawns a coroutine only when the table has
  no entry, and then exactly one; when there is an entry the state is left as it is. In every
  reachable state no two coroutines that have not yet erased their entry serve the same table,
  and a table has an entry exactly when such a coroutine serves it.
\<close>

theorem one_coroutine_per_entry:
  assumes "reachable s"
  shows "(\<forall>n. entries s n \<noteq> None \<longrightarrow> get_namespace_interface_begin n s = s) \<and>
         (\<forall>n. entries s n = None \<longrightarrow>
            coros (get_namespace_interface_begin n s) =
              (coros s)(next_coro s \<mapsto>
                 \<lparr>namespace_id = n, pc = Spawned, initial_ready = False,
                  expiration_timer = None\<rparr>) \<and>
            coros s (next_coro s) = None) \<and>
         (\<forall>k k' c c'. coros s k = Some c \<longrightarrow> coros s k' = Some c' \<longrightarrow>
            pc c \<noteq> Unwinding \<longrightarrow> pc c' \<noteq> Unwinding \<longrightarrow>
            namespace_id c = namespace_id c' \<longrightarrow> k = k') \<and>
         (\<forall>n. entries s n \<noteq> None \<longleftrightarrow>
            (\<exists>k c. coros s k = Some c \<and> pc c \<noteq> Unwinding \<and> namespace_id c = n))"
proof -
  have ic: "inv_coros s" using reachable_inv[OF assms] by (simp add: inv_def)
  have 1: "\<forall>n. entries s n \<noteq> None \<longrightarrow> get_namespace_interface_begin n s = s"
    by (auto simp: get_namespace_interface_begin_def)
  have 2: "\<forall>n. entries s n = None \<longrightarrow>
            coros (get_namespace_interface_begin n s) =
              (coros s)(next_coro s \<mapsto>
                 \<lparr>namespace_id = n, pc = Spawned, initial_ready = False,
                  expiration_timer = None\<rparr>) \<and>
            coros s (next_coro s) = None"
    using inv_coros_fresh[OF ic] by (auto simp: get_namespace_interface_begin_def)
  have 3: "\<forall>k k' c c'. coros s k = Some c \<longrightarrow> coros s k' = Some c' \<longrightarrow>
            pc c \<noteq> Unwinding \<longrightarrow> pc c' \<noteq> Unwinding \<longrightarrow>
            namespace_id c = namespace_id c' \<longrightarrow> k = k'"
    using inv_coros_unique[OF ic] by blast
  have 4: "\<forall>n. entries s n \<noteq> None \<longleftrightarrow>
            (\<exists>k c. coros s k = Some c \<and> pc c \<noteq> Unwinding \<and> namespace_id c = n)"
    using inv_coros_owner[OF ic] inv_coros_entry[OF ic] by (metis not_None_eq)
  from 1 2 3 4 show ?thesis by blast
qed

theorem one_coroutine_per_entry_witness:
  "reachable (get_namespace_interface_begin 1 init_repo) \<and>
   get_namespace_interface_begin 1 (get_namespace_interface_begin 1 init_repo) =
     get_namespace_interface_begin 1 init_repo"
proof -
  have "fire (Get_called 1) init_repo = Some (get_namespace_interface_begin 1 init_repo)"
    by (simp add: fire_def init_repo_def)
  then have r: "reachable (get_namespace_interface_begin 1 init_repo)"
    using reachable_init by (rule_tac reachable_fire)
  have "entries (get_namespace_interface_begin 1 init_repo) 1 \<noteq> None"
    by (simp add: get_namespace_interface_begin_def init_repo_def)
  with one_coroutine_per_entry[OF r] r show ?thesis by blast
qed

text \<open>
  Claim C6. On an entry whose count is an \<open>int\<close>: where the increment does not overflow,
  \<open>add_ref\<close> adds one to the count and pulses the trigger
  \<open>pulse_when_ref_count_becomes_nonzero\<close> exactly when the new count is 1 and the trigger is
  installed; where the decrement does not overflow, \<open>release\<close> takes one from the count and
  pulses \<open>pulse_when_ref_count_becomes_zero\<close> exactly when the new count is 0 and the trigger
  is installed. The new count is an \<open>int\<close> again, and nothing else changes.
\<close>

theorem add_ref_release_effect:
  assumes "INT_MIN \<le> ref_count e" "ref_count e \<le> INT_MAX"
  shows "(ref_count e < INT_MAX \<longrightarrow>
            ref_count e + 1 \<le> INT_MAX \<and>
            add_ref e cs =
              (e\<lparr>ref_count := ref_count e + 1\<rparr>,
               case pulse_when_ref_count_becomes_nonzero e of
                 Some c \<Rightarrow> if ref_count e + 1 = 1 then cs(c := True) else cs
               | None \<Rightarrow> cs)) \<and>
         (INT_MIN < ref_count e \<longrightarrow>
            INT_MIN \<le> ref_count e - 1 \<and>
            release e cs =
              (e\<lparr>ref_count := ref_count e - 1\<rparr>,
               case pulse_when_ref_count_becomes_zero e of
                 Some c \<Rightarrow> if ref_count e - 1 = 0 then cs(c := True) else cs
               | None \<Rightarrow> cs))"
  by (auto simp: add_ref_def release_def Let_def pulse_if_not_already_pulsed_def fun_eq_iff
      split: option.splits)

theorem add_ref_release_effect_witness:
  "INT_MIN \<le> ref_count example_entry \<and> ref_count example_entry < INT_MAX \<and>
   INT_MIN < ref_count (example_entry\<lparr>ref_count := 1\<rparr>) \<and>
   ref_count (example_entry\<lparr>ref_count := 1\<rparr>) \<le> INT_MAX \<and>
   add_ref example_entry (\<lambda>_. False) =
     (example_entry\<lparr>ref_count := 1\<rparr>, (\<lambda>_. False)(ref_count_is_nonzero 0 := True)) \<and>
   release (example_entry\<lparr>ref_count := 1\<rparr>) (\<lambda>_. False) =
     (example_entry\<lparr>ref_count := 0\<rparr>, (\<lambda>_. False)(ref_count_is_zero 0 := True))"
  using add_ref_release_effect[of example_entry "\<lambda>_. False"]
    add_ref_release_effect[of "example_entry\<lparr>ref_count := 1\<rparr>" "\<lambda>_. False"]
  by (simp add: example_entry_def INT_MAX_def INT_MIN_def)

text \<open>
  Claim C7. As long as the callers keep their obligation (the cache is drained only when no
  handle is live, and no call returns a handle afterwards), in every step from a state that can
  be reached: nothing fails, so neither the guarantee of line 186 nor the guarantee of line 197
  does; an entry that the step removes had count 0, and the step is the run of a coroutine of
  that table; a coroutine that is resumed from one of its waits after the drain passes the
  guarantee of line 197 and erases its entry; and a coroutine that is resumed from the wait of
  line 184 with \<open>ref_count_is_nonzero\<close> not pulsed passes the guarantee of line 186 and
  erases its entry.
\<close>

theorem erase_only_at_ref_count_zero:
  assumes "reachable_obliged s" "caller_obligation ev s" "fire ev s = Some s'"
  shows "failed s' = None \<and>
         (\<forall>n e. entries s n = Some e \<longrightarrow> entries s' n = None \<longrightarrow>
            ref_count e = 0 \<and>
            (\<exists>k c. ev = Resume k \<and> coros s k = Some c \<and> namespace_id c = n \<and>
                   pc c \<noteq> Unwinding)) \<and>
         (\<forall>k c. ev = Resume k \<longrightarrow> coros s k = Some c \<longrightarrow> drain_signal s \<longrightarrow>
            pc c = Wait_initial_ready \<or> pc c = Wait_ref_count_zero \<or> pc c = Wait_expiration \<longrightarrow>
            s' = erase_entry k c s) \<and>
         (\<forall>k c. ev = Resume k \<longrightarrow> coros s k = Some c \<longrightarrow> \<not> drain_signal s \<longrightarrow>
            pc c = Wait_expiration \<longrightarrow> \<not> conds s (ref_count_is_nonzero k) \<longrightarrow>
            s' = erase_entry k c s)"
proof -
  have reach: "reachable s" using assms(1) by (rule reachable_obliged_reachable)
  have i: "inv s" using reach by (rule reachable_inv)
  have i': "inv s'" using i assms(3) by (rule inv_fire)
  have ir: "inv_refs s" using i by (simp add: inv_def)
  have nh: "drain_signal s \<longrightarrow> (\<forall>n. handles s n = 0)"
    using assms(1) by (rule reachable_obliged_no_handle_after_drain)
  have f0: "failed s = None" using assms(3) by (auto simp: fire_def split: if_splits)
  have 1: "failed s' = None"
  proof (rule ccontr)
    assume "failed s' \<noteq> None"
    with i' have fl: "failed s' = Some Guarantee_ref_count_zero_when_interrupted"
      by (auto simp: inv_def inv_failed_def)
    from fire_fails_interrupted[OF assms(3) fl] obtain k c e where
      h: "ev = Resume k" "coros s k = Some c" "drain_signal s"
         "entries s (namespace_id c) = Some e" "ref_count e \<noteq> 0" by blast
    from inv_refs_count[OF ir h(4)] h(5) have "0 < handles s (namespace_id c)" by simp
    with nh h(3) show False by simp
  qed
  have 2: "\<forall>n e. entries s n = Some e \<longrightarrow> entries s' n = None \<longrightarrow>
            ref_count e = 0 \<and>
            (\<exists>k c. ev = Resume k \<and> coros s k = Some c \<and> namespace_id c = n \<and>
                   pc c \<noteq> Unwinding)"
    using fire_erases[OF assms(3)] by blast
  have 3: "s' = erase_entry k c s"
    if "ev = Resume k" "coros s k = Some c" "drain_signal s"
      "pc c = Wait_initial_ready \<or> pc c = Wait_ref_count_zero \<or> pc c = Wait_expiration"
    for k c
  proof -
    from assms(3) that(1) have r: "create_and_destroy_namespace_interface k s = Some s'"
      by (auto simp: fire_def split: if_splits)
    from nh that(3) have "handles s (namespace_id c) = 0" by simp
    from interrupted_erases[OF i f0 that(2,3,4) r this] show ?thesis .
  qed
  have 4: "s' = erase_entry k c s"
    if "ev = Resume k" "coros s k = Some c" "\<not> drain_signal s" "pc c = Wait_expiration"
      "\<not> conds s (ref_count_is_nonzero k)"
    for k c
  proof -
    from assms(3) that(1) have r: "create_and_destroy_namespace_interface k s = Some s'"
      by (auto simp: fire_def split: if_splits)
    from expired_erases[OF i that(2,3,4,5) r] show ?thesis .
  qed
  from 1 2 3 4 show ?thesis by blast
qed

theorem erase_only_at_ref_count_zero_witness:
  "reachable_obliged (the (run_obliged example_drain_after_release init_repo)) \<and>
   caller_obligation (Resume 0) (the (run_obliged example_drain_after_release init_repo)) \<and>
   drain_signal (the (run_obliged example_drain_after_release init_repo)) \<and>
   fire (Resume 0) (the (run_obliged example_drain_after_release init_repo)) \<noteq> None \<and>
   map_option ref_count (entries (the (run_obliged example_drain_after_release init_repo)) 1)
     = Some 0 \<and>
   entries (the (fire (Resume 0) (the (run_obliged example_drain_after_release init_repo)))) 1
     = None \<and>
   failed (the (fire (Resume 0) (the (run_obliged example_drain_after_release init_repo))))
     = None \<and>
   reachable_obliged (the (run_obliged example_idle init_repo)) \<and>
   \<not> drain_signal (the (run_obliged example_idle init_repo)) \<and>
   fire (Resume 0) (the (run_obliged example_idle init_repo)) \<noteq> None \<and>
   map_option ref_count (entries (the (run_obliged example_idle init_repo)) 1) = Some 0 \<and>
   entries (the (fire (Resume 0) (the (run_obliged example_idle init_repo)))) 1 = None \<and>
   failed (the (fire (Resume 0) (the (run_obliged example_idle init_repo)))) = None"
proof -
  define s where "s = the (run_obliged example_drain_after_release init_repo)"
  define s' where "s' = the (fire (Resume 0) s)"
  have r: "run_obliged example_drain_after_release init_repo = Some s"
    unfolding s_def by (simp add: example_drain_after_release_def caller_obligation_def run_defs)
  have reach: "reachable_obliged s" using run_obliged_reachable[OF reachable_obliged_init r] .
  have ob: "caller_obligation (Resume 0) s" by (simp add: caller_obligation_def)
  have f: "fire (Resume 0) s = Some s'"
    unfolding s'_def s_def
    by (simp add: example_drain_after_release_def caller_obligation_def run_defs)
  have d: "drain_signal s"
    unfolding s_def by (simp add: example_drain_after_release_def caller_obligation_def run_defs)
  have e: "entries s 1 \<noteq> None"
    unfolding s_def by (simp add: example_drain_after_release_def caller_obligation_def run_defs)
  have e': "entries s' 1 = None"
    unfolding s'_def s_def
    by (simp add: example_drain_after_release_def caller_obligation_def run_defs)
  from e obtain e0 where e0: "entries s 1 = Some e0" by blast
  from erase_only_at_ref_count_zero[OF reach ob f] e0 e'
  have "ref_count e0 = 0" and "failed s' = None" by blast+
  moreover have "fire (Resume 0) s \<noteq> None" using f by simp
  ultimately have drained:
    "reachable_obliged s \<and> caller_obligation (Resume 0) s \<and> drain_signal s \<and>
     fire (Resume 0) s \<noteq> None \<and> map_option ref_count (entries s 1) = Some 0 \<and>
     entries s' 1 = None \<and> failed s' = None"
    using e0 reach ob d e' by simp
  define t where "t = the (run_obliged example_idle init_repo)"
  define t' where "t' = the (fire (Resume 0) t)"
  have rt: "run_obliged example_idle init_repo = Some t"
    unfolding t_def by (simp add: example_idle_def caller_obligation_def run_defs)
  have reacht: "reachable_obliged t" using run_obliged_reachable[OF reachable_obliged_init rt] .
  have ft: "fire (Resume 0) t = Some t'"
    unfolding t'_def t_def by (simp add: example_idle_def caller_obligation_def run_defs)
  have dt: "\<not> drain_signal t"
    unfolding t_def by (simp add: example_idle_def caller_obligation_def run_defs)
  have et: "entries t 1 \<noteq> None"
    unfolding t_def by (simp add: example_idle_def caller_obligation_def run_defs)
  have et': "entries t' 1 = None"
    unfolding t'_def t_def by (simp add: example_idle_def caller_obligation_def run_defs)
  from et obtain e1 where e1: "entries t 1 = Some e1" by blast
  have obt: "caller_obligation (Resume 0) t" by (simp add: caller_obligation_def)
  from erase_only_at_ref_count_zero[OF reacht obt ft] e1 et'
  have "ref_count e1 = 0" and "failed t' = None" by blast+
  moreover have "fire (Resume 0) t \<noteq> None" using ft by simp
  ultimately have expired:
    "reachable_obliged t \<and> \<not> drain_signal t \<and> fire (Resume 0) t \<noteq> None \<and>
     map_option ref_count (entries t 1) = Some 0 \<and> entries t' 1 = None \<and> failed t' = None"
    using e1 reacht dt et' by simp
  from drained expired show ?thesis unfolding s'_def s_def t'_def t_def by simp
qed

text \<open>
  Claim C8. In no reachable state, and in no step from one, has the guarantee of line 142 or
  the pulse of line 166 failed; and if a step changes the promise of an entry, the promise was
  not pulsed before, and the step is the run of a coroutine of that table from the wait of
  line 162, the only coroutine of that table that has not yet erased its entry.
\<close>

theorem interface_slot_pulsed_once:
  assumes "reachable s" "fire ev s = Some s'"
  shows "failed s \<noteq> Some Guarantee_slot_not_pulsed \<and> failed s \<noteq> Some Duplicate_pulse \<and>
         failed s' \<noteq> Some Guarantee_slot_not_pulsed \<and> failed s' \<noteq> Some Duplicate_pulse \<and>
         (\<forall>n e e'. entries s n = Some e \<longrightarrow> entries s' n = Some e' \<longrightarrow>
            namespace_interface e' \<noteq> namespace_interface e \<longrightarrow>
            namespace_interface e = None \<and>
            (\<exists>k c. ev = Resume k \<and> namespace_interface e' = Some k \<and> coros s k = Some c \<and>
                   namespace_id c = n \<and> pc c = Wait_initial_ready \<and>
                   (\<forall>k' c'. coros s k' = Some c' \<longrightarrow> pc c' \<noteq> Unwinding \<longrightarrow>
                       namespace_id c' = n \<longrightarrow> k' = k)))"
proof -
  have i: "inv s" using assms(1) by (rule reachable_inv)
  have i': "inv s'" using i assms(2) by (rule inv_fire)
  have ic: "inv_coros s" using i by (simp add: inv_def)
  have 0: "failed s \<noteq> Some Guarantee_slot_not_pulsed \<and> failed s \<noteq> Some Duplicate_pulse"
    using i by (auto simp: inv_def inv_failed_def)
  have 1: "failed s' \<noteq> Some Guarantee_slot_not_pulsed \<and> failed s' \<noteq> Some Duplicate_pulse"
    using i' by (auto simp: inv_def inv_failed_def)
  have 2: "namespace_interface e = None \<and>
            (\<exists>k c. ev = Resume k \<and> namespace_interface e' = Some k \<and> coros s k = Some c \<and>
                   namespace_id c = n \<and> pc c = Wait_initial_ready \<and>
                   (\<forall>k' c'. coros s k' = Some c' \<longrightarrow> pc c' \<noteq> Unwinding \<longrightarrow>
                       namespace_id c' = n \<longrightarrow> k' = k))"
    if h: "entries s n = Some e" "entries s' n = Some e'"
      "namespace_interface e' \<noteq> namespace_interface e" for n e e'
  proof -
    from fire_pulses_slot[OF assms(2) h] obtain k c where
      k: "namespace_interface e = None" "ev = Resume k" "namespace_interface e' = Some k"
         "coros s k = Some c" "namespace_id c = n" "pc c = Wait_initial_ready" by blast
    have "\<forall>k' c'. coros s k' = Some c' \<longrightarrow> pc c' \<noteq> Unwinding \<longrightarrow>
                       namespace_id c' = n \<longrightarrow> k' = k"
      using inv_coros_unique[OF ic _ k(4)] k(5,6) by auto
    with k show ?thesis by blast
  qed
  from 0 1 2 show ?thesis by blast
qed

theorem interface_slot_pulsed_once_witness:
  "reachable (the (run example_ready init_repo)) \<and>
   fire (Resume 0) (the (run example_ready init_repo)) \<noteq> None \<and>
   map_option namespace_interface (entries (the (run example_ready init_repo)) 1) = Some None \<and>
   map_option namespace_interface
     (entries (the (fire (Resume 0) (the (run example_ready init_repo)))) 1) = Some (Some 0) \<and>
   failed (the (fire (Resume 0) (the (run example_ready init_repo)))) = None"
proof -
  define s where "s = the (run example_ready init_repo)"
  define s' where "s' = the (fire (Resume 0) s)"
  have r: "run example_ready init_repo = Some s"
    unfolding s_def by (simp add: example_ready_def run_defs)
  have reach: "reachable s" using run_reachable[OF reachable_init r] .
  have f: "fire (Resume 0) s = Some s'"
    unfolding s'_def s_def by (simp add: example_ready_def run_defs)
  have e: "map_option namespace_interface (entries s 1) = Some None"
    unfolding s_def by (simp add: example_ready_def run_defs)
  have e': "map_option namespace_interface (entries s' 1) = Some (Some 0)"
    unfolding s'_def s_def by (simp add: example_ready_def run_defs)
  from interface_slot_pulsed_once[OF reach f] have
    "failed s' \<noteq> Some Guarantee_slot_not_pulsed \<and> failed s' \<noteq> Some Duplicate_pulse" by blast
  moreover have "failed s' = None"
    unfolding s'_def s_def by (simp add: example_ready_def run_defs)
  moreover have "fire (Resume 0) s \<noteq> None" using f by simp
  ultimately show ?thesis using reach e e' unfolding s'_def s_def by simp
qed

text \<open>
  Claim C9. The result of \<open>get_reactor_business_cards\<close> has exactly the peers of the
  directory as its keys; a peer with a card for the table maps to that card, and a peer without
  one maps to the default-constructed card.
\<close>

theorem get_reactor_business_cards_total:
  assumes "distinct (map fst dir)"
  shows "dom (get_reactor_business_cards default_card dir n) = fst ` set dir \<and>
         (\<forall>(p, md) \<in> set dir.
            get_reactor_business_cards default_card dir n p =
              Some (case reactor_bcards md n of Some jt \<Rightarrow> internal jt | None \<Rightarrow> default_card))"
  using assms
  by (auto simp: get_reactor_business_cards_def dom_get_cards_loop get_cards_loop_present)

theorem get_reactor_business_cards_total_witness:
  "distinct (map fst example_directory) \<and>
   get_reactor_business_cards '''' example_directory 7 1 = Some ''card'' \<and>
   get_reactor_business_cards '''' example_directory 7 2 = Some ''''"
  using get_reactor_business_cards_total[of example_directory "''''" 7]
  by (simp add: example_directory_def)

text \<open>
  Claim C10. \<open>release\<close> checks nothing: on an entry whose count is 0 it sets the count to -1
  and pulses no trigger.
\<close>

theorem release_unchecked_at_zero:
  assumes "ref_count e = 0"
  shows "release e cs = (e\<lparr>ref_count := - 1\<rparr>, cs)"
  using assms by (simp add: release_def)

theorem release_unchecked_at_zero_witness:
  "ref_count example_entry = 0 \<and>
   release example_entry (\<lambda>_. False) = (example_entry\<lparr>ref_count := - 1\<rparr>, \<lambda>_. False)"
  using release_unchecked_at_zero[of example_entry "\<lambda>_. False"]
  by (simp add: example_entry_def)

end
